theory Spec2Isabelle
  imports Main "HOL-Library.AList"
begin

section \<open>Python strings\<close>

text \<open>
  A Python \<open>str\<close> is a sequence of Unicode code points. A code point is a natural
  number here, so that \<open>str.strip\<close> sees every whitespace character of Python and not
  only those of one byte. \<open>py\<close> writes an ASCII literal of the source.
\<close>

type_synonym pystr = "nat list"

definition py :: "string \<Rightarrow> pystr" where
  "py s = map of_char s"

text \<open>The line feed, \<^verbatim>\<open>"\n"\<close> in the source, and the underscore.\<close>

definition LF :: nat where
  "LF = 10"

definition underscore :: nat where
  "underscore = 95"

text \<open>
  \<open>str.isspace\<close> on one code point, as CPython's \<^verbatim>\<open>_PyUnicode_IsWhitespace\<close> decides it:
  U+0009..U+000D, U+001C..U+001F, U+0020, U+0085, U+00A0, U+1680, U+2000..U+200A,
  U+2028, U+2029, U+202F, U+205F and U+3000.
\<close>

definition isspace :: "nat \<Rightarrow> bool" where
  "isspace c \<longleftrightarrow>
     (9 \<le> c \<and> c \<le> 13) \<or> (28 \<le> c \<and> c \<le> 32) \<or> c = 133 \<or> c = 160 \<or> c = 5760 \<or>
     (8192 \<le> c \<and> c \<le> 8202) \<or> c = 8232 \<or> c = 8233 \<or> c = 8239 \<or> c = 8287 \<or>
     c = 12288"

text \<open>\<open>s.strip()\<close>: leading whitespace goes, then trailing whitespace.\<close>

definition strip :: "pystr \<Rightarrow> pystr" where
  "strip s = rev (dropWhile isspace (rev (dropWhile isspace s)))"

text \<open>\<open>s.startswith(p)\<close>.\<close>

fun startswith :: "pystr \<Rightarrow> pystr \<Rightarrow> bool" where
  "startswith s [] = True"
| "startswith [] (p # ps) = False"
| "startswith (c # cs) (p # ps) = (c = p \<and> startswith cs ps)"

text \<open>\<open>sub in s\<close> on strings: \<open>sub\<close> occurs in \<open>s\<close> as a substring.\<close>

fun contains :: "pystr \<Rightarrow> pystr \<Rightarrow> bool" where
  "contains [] sub = (sub = [])"
| "contains (c # cs) sub = (startswith (c # cs) sub \<or> contains cs sub)"

text \<open>
  \<open>s.split(sep)\<close> for a separator of one character: the pieces between the
  separators, in order; the empty string gives one empty piece.
\<close>

fun split :: "pystr \<Rightarrow> nat \<Rightarrow> pystr list" where
  "split [] sep = [[]]"
| "split (c # cs) sep =
     (if c = sep then [] # split cs sep
      else (case split cs sep of
              [] \<Rightarrow> [[c]]
            | piece # pieces \<Rightarrow> (c # piece) # pieces))"

text \<open>
  Exceptions are values. Every class below derives from \<open>Exception\<close>, so a
  bare \<^verbatim>\<open>except Exception\<close> of the source catches each of them.
\<close>

datatype exn =
    TimeoutException
  | NoSuchElementException
  | StaleElementReferenceException
  | WebDriverException
  | IndexError
  | OSError

text \<open>\<open>xs[0]\<close>: the first element, \<open>IndexError\<close> on the empty list.\<close>

definition index0 :: "'a list \<Rightarrow> exn + 'a" where
  "index0 xs = (case xs of [] \<Rightarrow> Inl IndexError | x # _ \<Rightarrow> Inr x)"

text \<open>
  \<open>re.sub(pattern, repl, s)\<close> where the pattern is one character class: every
  character of the class becomes \<open>repl\<close>, every other character stays.
\<close>

definition re_sub :: "(nat \<Rightarrow> bool) \<Rightarrow> pystr \<Rightarrow> pystr \<Rightarrow> pystr" where
  "re_sub cls repl s = concat (map (\<lambda>c. if cls c then repl else [c]) s)"

section \<open>The constants of the module\<close>

definition BASE_URL :: pystr where
  "BASE_URL = py ''https://www.uschamber.com''"

definition MAIN_PAGE :: pystr where
  "MAIN_PAGE = BASE_URL @ py ''/co/chambers''"

section \<open>sanitize\_filename\<close>

text \<open>
  The class \<^verbatim>\<open>[\\/*?:"<>|]\<close> of the raw pattern: backslash (92), slash (47), star (42),
  question mark (63), colon (58), double quote (34), less (60), greater (62), bar (124).
\<close>

definition invalid_chars :: "nat list" where
  "invalid_chars = [92, 47, 42, 63, 58, 34, 60, 62, 124]"

definition invalid_char :: "nat \<Rightarrow> bool" where
  "invalid_char c \<longleftrightarrow> c \<in> set invalid_chars"

text \<open>
  \<^verbatim>\<open>
  def sanitize_filename(name):
      name = name.strip()
      if "\n" in name:
          name = name.split("\n")[0]
      return re.sub(r'[\\/*?:"<>|]', "_", name)
  \<close>
\<close>

definition sanitize_filename :: "pystr \<Rightarrow> exn + pystr" where
  "sanitize_filename name0 =
     (let name = strip name0 in
      case (if contains name [LF] then index0 (split name LF) else Inr name) of
        Inl e \<Rightarrow> Inl e
      | Inr name' \<Rightarrow> Inr (re_sub invalid_char [underscore] name'))"

text \<open>
  The sanitizer as the specification words it: trim, keep the text before the first
  line break if there is one, replace each listed character by an underscore.
\<close>

definition before_first_line_break :: "pystr \<Rightarrow> pystr" where
  "before_first_line_break s = takeWhile (\<lambda>c. c \<noteq> LF) s"

definition replace_invalid :: "pystr \<Rightarrow> pystr" where
  "replace_invalid s = map (\<lambda>c. if c \<in> {92, 47, 42, 63, 58, 34, 60, 62, 124} then underscore else c) s"

definition sanitizer_spec :: "pystr \<Rightarrow> pystr" where
  "sanitizer_spec s =
     (let t = strip s;
          u = (if LF \<in> set t then before_first_line_break t else t)
      in replace_invalid u)"

text \<open>Applying the sanitizer to its own result.\<close>

definition sanitize_twice :: "pystr \<Rightarrow> exn + pystr" where
  "sanitize_twice s =
     (case sanitize_filename s of Inl e \<Rightarrow> Inl e | Inr r \<Rightarrow> sanitize_filename r)"

section \<open>The browser, the file system and the log, as the program sees them\<close>

text \<open>
  The Selenium session is outside the program. What a query answers is data here: an
  element carries the answer of each query the program makes on it, and an answer is
  either a value or the exception the call raises. Each query is made at most once
  between two navigations, so a tree of answers covers every behaviour of the browser.
\<close>

text \<open>A \<open>WebElement\<close>: its \<open>.text\<close> and its \<open>get_attribute("href")\<close>.\<close>

datatype element = Element (el_text: "exn + pystr") (get_href: "exn + pystr option")

text \<open>
  A listing container (class \<open>chamber-finder__content\<close>) with the answers of
  \<open>find_element(By.TAG_NAME, "h3")\<close>, of
  \<open>find_element(By.CSS_SELECTOR, ".chamber-finder__address")\<close> and of
  \<open>find_elements(By.TAG_NAME, "a")\<close>.
\<close>

datatype item = Item
  (find_h3: "exn + element")
  (find_address: "exn + element")
  (find_anchors: "exn + element list")

text \<open>The container with id \<open>chamber-finder-js\<close> and its \<open>find_elements(By.TAG_NAME, "a")\<close>.\<close>

datatype container = Container (find_links: "exn + element list")

text \<open>
  A loaded page: the outcome of \<open>driver.get\<close>, of the wait for the container by id, of
  the wait for the listing containers, and of \<open>driver.find_elements\<close> for them.
\<close>

datatype page = Page
  (load: "exn + unit")
  (wait_container: "exn + container")
  (wait_items: "exn + unit")
  (find_items: "exn + item list")

text \<open>
  A chamber as \<open>scrape_state\<close> appends it, and the Python values that \<open>json.dump\<close>
  receives and \<open>json.load\<close> returns: \<open>None\<close>, a string, a list, a dictionary with string
  keys in insertion order.
\<close>

record listing =
  name :: pystr
  address :: pystr
  website :: "pystr option"

datatype json = JNull | JString pystr | JArray "json list" | JObject "(pystr \<times> json) list"

text \<open>What the program prints, by message and arguments.\<close>

datatype message =
    ErrorStateLinks exn
  | ScrapingState pystr pystr
  | TimedOut pystr exn
  | ErrorScraping pystr exn
  | Saved pystr pystr
  | NoStateLinks

text \<open>What the program does to the world, in the order it does it.\<close>

datatype event =
    Chrome
  | DriverGet pystr
  | WaitContainer
  | WaitItems
  | FindLinks
  | FindItems
  | Sleep nat
  | Print message
  | Makedirs pystr
  | Chdir pystr
  | OpenW pystr
  | Quit

text \<open>
  The state of a run: the events so far, the page the session shows, the working
  directory (as the directories entered since the start), and the text of the files
  written, by directory and file name.
\<close>

record state =
  events :: "event list"
  page :: page
  cwd :: "pystr list"
  written :: "pystr list \<times> pystr \<rightharpoonup> pystr"

text \<open>
  The environment of a run: whether Chrome starts, the page the browser serves for a URL
  (it may depend on the moment, counted in events), whether the output directory
  exists, and the outcomes of \<open>os.makedirs\<close>, \<open>os.chdir\<close> and of opening a file for
  writing (by moment and name).
\<close>

record env =
  chrome :: "exn + unit"
  browser :: "nat \<Rightarrow> pystr \<Rightarrow> page"
  exists_dir :: bool
  makedirs :: "exn + unit"
  chdir :: "exn + unit"
  open_w :: "nat \<Rightarrow> pystr \<Rightarrow> exn + unit"

definition blank_page :: page where
  "blank_page = Page (Inr ()) (Inl TimeoutException) (Inl TimeoutException) (Inr [])"

definition init_state :: state where
  "init_state = \<lparr>events = [], page = blank_page, cwd = [], written = Map.empty\<rparr>"

definition emit :: "event \<Rightarrow> state \<Rightarrow> state" where
  "emit e st = st\<lparr>events := events st @ [e]\<rparr>"

text \<open>\<open>driver.get(url)\<close>: the session shows the page the browser serves.\<close>

definition driver_get :: "env \<Rightarrow> pystr \<Rightarrow> state \<Rightarrow> (exn + unit) \<times> state" where
  "driver_get env url st =
     (let p = browser env (length (events st)) url
      in (load p, (emit (DriverGet url) st)\<lparr>page := p\<rparr>))"

section \<open>get\_state\_links\<close>

text \<open>
  \<^verbatim>\<open>
  for link in links:
      href = link.get_attribute("href")
      state_name = link.text.strip()
      if href and state_name and ("/co/chambers/" in href) and (href != MAIN_PAGE):
          state_links[state_name] = href
  \<close>
  The dictionary is an association list in insertion order; \<open>AList.update\<close> keeps the
  place of a key that is already there, as a Python \<open>dict\<close> does. An exception leaves
  the loop with the dictionary as it is.
\<close>

fun links_loop :: "element list \<Rightarrow> (pystr \<times> pystr) list \<Rightarrow> exn option \<times> (pystr \<times> pystr) list" where
  "links_loop [] state_links = (None, state_links)"
| "links_loop (link # links) state_links =
     (case get_href link of
        Inl e \<Rightarrow> (Some e, state_links)
      | Inr href \<Rightarrow>
          (case el_text link of
             Inl e \<Rightarrow> (Some e, state_links)
           | Inr t \<Rightarrow>
               (let state_name = strip t in
                case href of
                  None \<Rightarrow> links_loop links state_links
                | Some h \<Rightarrow>
                    if h \<noteq> [] \<and> state_name \<noteq> [] \<and> contains h (py ''/co/chambers/'') \<and> h \<noteq> MAIN_PAGE
                    then links_loop links (AList.update state_name h state_links)
                    else links_loop links state_links)))"

text \<open>
  \<^verbatim>\<open>
  state_links = {}
  try:
      container = WebDriverWait(driver, 10).until(
          EC.presence_of_element_located((By.ID, "chamber-finder-js")))
      links = container.find_elements(By.TAG_NAME, "a")
      for link in links: ...
  except Exception as e:
      print("Error while trying to get state links:", e)
  return state_links
  \<close>
\<close>

definition get_state_links :: "state \<Rightarrow> (pystr \<times> pystr) list \<times> state" where
  "get_state_links st =
     (let st1 = emit WaitContainer st in
      case wait_container (page st1) of
        Inl e \<Rightarrow> ([], emit (Print (ErrorStateLinks e)) st1)
      | Inr c \<Rightarrow>
          (let st2 = emit FindLinks st1 in
           case find_links c of
             Inl e \<Rightarrow> ([], emit (Print (ErrorStateLinks e)) st2)
           | Inr links \<Rightarrow>
               (case links_loop links [] of
                  (None, state_links) \<Rightarrow> (state_links, st2)
                | (Some e, state_links) \<Rightarrow> (state_links, emit (Print (ErrorStateLinks e)) st2))))"

section \<open>scrape\_state\<close>

text \<open>
  \<^verbatim>\<open>
  try:
      name = item.find_element(By.TAG_NAME, "h3").text.strip()
  except Exception:
      name = "N/A"
  \<close>
  and the same for the address. The body of each \<open>try\<close> is a function of its own, with
  the exception as a result; the handler is the \<open>case\<close> on it.
\<close>

definition name_lookup :: "item \<Rightarrow> exn + pystr" where
  "name_lookup it =
     (case find_h3 it of
        Inl e \<Rightarrow> Inl e
      | Inr h \<Rightarrow> (case el_text h of Inl e \<Rightarrow> Inl e | Inr t \<Rightarrow> Inr (strip t)))"

definition item_name :: "item \<Rightarrow> pystr" where
  "item_name it = (case name_lookup it of Inl e \<Rightarrow> py ''N/A'' | Inr n \<Rightarrow> n)"

definition address_lookup :: "item \<Rightarrow> exn + pystr" where
  "address_lookup it =
     (case find_address it of
        Inl e \<Rightarrow> Inl e
      | Inr h \<Rightarrow> (case el_text h of Inl e \<Rightarrow> Inl e | Inr t \<Rightarrow> Inr (strip t)))"

definition item_address :: "item \<Rightarrow> pystr" where
  "item_address it = (case address_lookup it of Inl e \<Rightarrow> py ''N/A'' | Inr a \<Rightarrow> a)"

text \<open>
  \<^verbatim>\<open>
  website = None
  try:
      links = item.find_elements(By.TAG_NAME, "a")
      for a in links:
          href = a.get_attribute("href")
          if href and href.startswith("http") and BASE_URL not in href:
              website = href
              break
  except Exception:
      website = None
  \<close>
\<close>

fun website_loop :: "element list \<Rightarrow> exn + pystr option" where
  "website_loop [] = Inr None"
| "website_loop (a # links) =
     (case get_href a of
        Inl e \<Rightarrow> Inl e
      | Inr href \<Rightarrow>
          (case href of
             None \<Rightarrow> website_loop links
           | Some h \<Rightarrow>
               if h \<noteq> [] \<and> startswith h (py ''http'') \<and> \<not> contains h BASE_URL
               then Inr (Some h)
               else website_loop links))"

definition item_website :: "item \<Rightarrow> pystr option" where
  "item_website it =
     (case find_anchors it of
        Inl e \<Rightarrow> None
      | Inr links \<Rightarrow> (case website_loop links of Inl e \<Rightarrow> None | Inr w \<Rightarrow> w))"

text \<open>The loop over the containers: each one appends its chamber.\<close>

fun items_loop :: "item list \<Rightarrow> listing list \<Rightarrow> listing list" where
  "items_loop [] chambers = chambers"
| "items_loop (it # items) chambers =
     items_loop items
       (chambers @ [\<lparr>name = item_name it, address = item_address it, website = item_website it\<rparr>])"

text \<open>
  \<^verbatim>\<open>
  print(f"\nScraping state: {state_name}\nURL: {state_url}")
  driver.get(state_url)
  try:
      WebDriverWait(driver, 10).until(EC.presence_of_all_elements_located(...))
  except Exception as e:
      print(f"Timed out waiting for chamber items on {state_name}: {e}")
      return []
  time.sleep(2)
  chambers = []
  try:
      chamber_items = driver.find_elements(By.CSS_SELECTOR, ".chamber-finder__content")
      for item in chamber_items: ...
  except Exception as e:
      print(f"Error scraping chambers for {state_name}: {e}")
  return chambers
  \<close>
  \<open>driver.get\<close> stands outside every \<open>try\<close>: its exception leaves the function.
\<close>

definition scrape_state :: "env \<Rightarrow> pystr \<Rightarrow> pystr \<Rightarrow> state \<Rightarrow> (exn + listing list) \<times> state" where
  "scrape_state env state_name state_url st =
     (let st1 = emit (Print (ScrapingState state_name state_url)) st;
          (r, st2) = driver_get env state_url st1
      in case r of
           Inl e \<Rightarrow> (Inl e, st2)
         | Inr _ \<Rightarrow>
             (let st3 = emit WaitItems st2 in
              case wait_items (page st3) of
                Inl e \<Rightarrow> (Inr [], emit (Print (TimedOut state_name e)) st3)
              | Inr _ \<Rightarrow>
                  (let st4 = emit (Sleep 2) st3;
                       st5 = emit FindItems st4
                   in case find_items (page st5) of
                        Inl e \<Rightarrow> (Inr [], emit (Print (ErrorScraping state_name e)) st5)
                      | Inr chamber_items \<Rightarrow> (Inr (items_loop chamber_items []), st5))))"

section \<open>The json library: what json.dump writes and json.load reads\<close>

text \<open>
  \<open>save_state_data\<close> hands its dictionary to \<open>json.dump(output_data, f, indent=4)\<close>. The
  library is modelled for the documents the program builds: dictionaries with string
  keys, lists, strings and \<open>None\<close>. With the default \<open>ensure_ascii\<close> a string is written
  between double quotes, each character by \<^verbatim>\<open>encode_basestring_ascii\<close>: backslash and double
  quote behind a backslash, the printable ASCII characters as they are, backspace, form
  feed, line feed, carriage return and tab as \<^verbatim>\<open>\b \f \n \r \t\<close>, every other code point below
  0x10000 as \<^verbatim>\<open>\uXXXX\<close> with four lower-case hexadecimal digits, and a code point from 0x10000
  on as the two escapes of its UTF-16 surrogates.
\<close>

definition hex_digit :: "nat \<Rightarrow> nat" where
  "hex_digit d = (if d < 10 then 48 + d else 87 + d)"

definition u_escape :: "nat \<Rightarrow> pystr" where
  "u_escape n =
     [92, 117, hex_digit (n div 4096 mod 16), hex_digit (n div 256 mod 16),
      hex_digit (n div 16 mod 16), hex_digit (n mod 16)]"

definition escape_char :: "nat \<Rightarrow> pystr" where
  "escape_char c =
     (if c = 92 then [92, 92]
      else if c = 34 then [92, 34]
      else if 32 \<le> c \<and> c \<le> 126 then [c]
      else if c = 8 then [92, 98]
      else if c = 12 then [92, 102]
      else if c = 10 then [92, 110]
      else if c = 13 then [92, 114]
      else if c = 9 then [92, 116]
      else if c < 65536 then u_escape c
      else u_escape (55296 + (c - 65536) div 1024 mod 1024) @
           u_escape (56320 + (c - 65536) mod 1024))"

definition encode_basestring_ascii :: "pystr \<Rightarrow> pystr" where
  "encode_basestring_ascii s = [34] @ concat (map escape_char s) @ [34]"

text \<open>
  With \<open>indent=4\<close> an empty list is \<^verbatim>\<open>[]\<close> and an empty dictionary \<^verbatim>\<open>{}\<close>; otherwise every
  item stands on a line of its own, indented by four blanks per level, the items are
  separated by a comma, a key and its value by a colon and a blank, and the closing
  bracket stands on a line of its own at the level of the opening one. \<open>join\<close> is
  \<open>sep.join(parts)\<close>.
\<close>

definition newline_indent :: "nat \<Rightarrow> pystr" where
  "newline_indent lvl = 10 # replicate (4 * lvl) 32"

fun join :: "pystr \<Rightarrow> pystr list \<Rightarrow> pystr" where
  "join sep [] = []"
| "join sep [x] = x"
| "join sep (x # y # ys) = x @ sep @ join sep (y # ys)"

fun iterencode :: "nat \<Rightarrow> json \<Rightarrow> pystr" where
  "iterencode lvl JNull = [110, 117, 108, 108]"
| "iterencode lvl (JString s) = encode_basestring_ascii s"
| "iterencode lvl (JArray xs) =
     (if xs = [] then [91, 93]
      else [91] @ newline_indent (Suc lvl) @
           join ([44] @ newline_indent (Suc lvl)) (map (iterencode (Suc lvl)) xs) @
           newline_indent lvl @ [93])"
| "iterencode lvl (JObject kvs) =
     (if kvs = [] then [123, 125]
      else [123] @ newline_indent (Suc lvl) @
           join ([44] @ newline_indent (Suc lvl))
             (map (\<lambda>kv. encode_basestring_ascii (fst kv) @ [58, 32] @ iterencode (Suc lvl) (snd kv)) kvs) @
           newline_indent lvl @ [125])"

definition json_dumps :: "json \<Rightarrow> pystr" where
  "json_dumps obj = iterencode 0 obj"

text \<open>
  Reading a string back, as \<^verbatim>\<open>scanstring\<close> does after the opening quote. A backslash is
  followed by one of \<^verbatim>\<open>" \ / b f n r t\<close> or by \<^verbatim>\<open>u\<close> and four hexadecimal digits. When such a
  \<^verbatim>\<open>\uXXXX\<close> is a high surrogate and another \<^verbatim>\<open>\u\<close> escape follows that is a low surrogate,
  the two are joined into one code point. A raw control character, a missing closing
  quote and a malformed escape are decoding errors, \<open>None\<close> here.
\<close>

definition hex_value :: "nat \<Rightarrow> nat option" where
  "hex_value c =
     (if 48 \<le> c \<and> c \<le> 57 then Some (c - 48)
      else if 97 \<le> c \<and> c \<le> 102 then Some (c - 87)
      else if 65 \<le> c \<and> c \<le> 70 then Some (c - 55)
      else None)"

definition decode_uXXXX :: "pystr \<Rightarrow> (nat \<times> pystr) option" where
  "decode_uXXXX s =
     (case s of
        a # b # c # d # rest \<Rightarrow>
          (case hex_value a of None \<Rightarrow> None | Some w \<Rightarrow>
           case hex_value b of None \<Rightarrow> None | Some x \<Rightarrow>
           case hex_value c of None \<Rightarrow> None | Some y \<Rightarrow>
           case hex_value d of None \<Rightarrow> None | Some z \<Rightarrow>
             Some (((w * 16 + x) * 16 + y) * 16 + z, rest))
      | _ \<Rightarrow> None)"

definition backslash :: "nat \<Rightarrow> nat option" where
  "backslash esc =
     (if esc = 34 then Some 34
      else if esc = 92 then Some 92
      else if esc = 47 then Some 47
      else if esc = 98 then Some 8
      else if esc = 102 then Some 12
      else if esc = 110 then Some 10
      else if esc = 114 then Some 13
      else if esc = 116 then Some 9
      else None)"

definition scan_escape :: "pystr \<Rightarrow> (nat \<times> pystr) option" where
  "scan_escape s =
     (case s of
        [] \<Rightarrow> None
      | esc # s1 \<Rightarrow>
          if esc \<noteq> 117 then (case backslash esc of None \<Rightarrow> None | Some ch \<Rightarrow> Some (ch, s1))
          else
            (case decode_uXXXX s1 of
               None \<Rightarrow> None
             | Some (uni, s2) \<Rightarrow>
                 if 55296 \<le> uni \<and> uni \<le> 56319 \<and> take 2 s2 = [92, 117]
                 then (case decode_uXXXX (drop 2 s2) of
                         None \<Rightarrow> None
                       | Some (uni2, s3) \<Rightarrow>
                           if 56320 \<le> uni2 \<and> uni2 \<le> 57343
                           then Some (65536 + ((uni - 55296) * 1024 + (uni2 - 56320)), s3)
                           else Some (uni, s2))
                 else Some (uni, s2)))"

function scanstring :: "pystr \<Rightarrow> (pystr \<times> pystr) option" where
  "scanstring [] = None"
| "scanstring (c # cs) =
     (if c = 34 then Some ([], cs)
      else if c = 92 then
        (case scan_escape cs of
           None \<Rightarrow> None
         | Some (ch, r) \<Rightarrow>
             (case scanstring r of None \<Rightarrow> None | Some (s, r') \<Rightarrow> Some (ch # s, r')))
      else if c < 32 then None
      else (case scanstring cs of None \<Rightarrow> None | Some (s, r') \<Rightarrow> Some (c # s, r')))"
  by pat_completeness auto
termination
proof -
  have decode: "length r < length s" if "decode_uXXXX s = Some (u, r)" for s u r
    using that by (auto simp: decode_uXXXX_def split: list.splits option.splits)
  have escape: "length r < length s" if a: "scan_escape s = Some (ch, r)" for s ch r
  proof (cases s)
    case Nil
    with a show ?thesis by (simp add: scan_escape_def)
  next
    case (Cons esc s1)
    show ?thesis
    proof (cases "esc = 117")
      case False
      with a Cons show ?thesis
        by (auto simp: scan_escape_def split: option.splits)
    next
      case True
      with a Cons obtain uni s2 where d: "decode_uXXXX s1 = Some (uni, s2)"
        by (auto simp: scan_escape_def split: option.splits)
      from decode [OF d] have l2: "length s2 < length s1" .
      show ?thesis
      proof (cases "55296 \<le> uni \<and> uni \<le> 56319 \<and> take 2 s2 = [92, 117]")
        case False
        with a Cons True d have "r = s2"
          by (auto simp: scan_escape_def)
        with l2 Cons show ?thesis by simp
      next
        case pair: True
        with a Cons True d obtain uni2 s3 where d2: "decode_uXXXX (drop 2 s2) = Some (uni2, s3)"
          by (auto simp: scan_escape_def split: option.splits)
        from decode [OF d2] have l3: "length s3 < length s2" by simp
        from a Cons True d pair d2 have "r = s3 \<or> r = s2"
          by (auto simp: scan_escape_def split: if_splits)
        with l2 l3 Cons show ?thesis by auto
      qed
    qed
  qed
  show ?thesis
    by (relation "measure length") (auto dest: escape)
qed

text \<open>
  Reading a document back, as \<open>json.load\<close> does, for documents made of objects, arrays,
  strings and \<open>null\<close>; a number, \<open>true\<close> or \<open>false\<close> is refused here, and none occurs in a
  file that \<open>save_state_data\<close> writes. White space (blank, tab, line feed, carriage
  return) is skipped between the tokens. The pairs of an object become a dictionary,
  in which a key that comes again replaces the value it had. The first argument bounds
  the depth of the recursion; \<open>json_loads\<close> gives one more than the length of the text.
  \<open>None\<close> is the decoding error.
\<close>

definition skip_ws :: "pystr \<Rightarrow> pystr" where
  "skip_ws s = dropWhile (\<lambda>c. c \<in> {32, 9, 10, 13}) s"

definition dict :: "(pystr \<times> json) list \<Rightarrow> (pystr \<times> json) list" where
  "dict pairs = foldl (\<lambda>d kv. AList.update (fst kv) (snd kv) d) [] pairs"

fun scan_once :: "nat \<Rightarrow> pystr \<Rightarrow> (json \<times> pystr) option"
  and parse_array :: "nat \<Rightarrow> pystr \<Rightarrow> (json list \<times> pystr) option"
  and parse_object :: "nat \<Rightarrow> pystr \<Rightarrow> ((pystr \<times> json) list \<times> pystr) option" where
  "scan_once 0 s = None"
| "scan_once (Suc n) s =
     (case s of
        [] \<Rightarrow> None
      | c # cs \<Rightarrow>
          if c = 34 then
            (case scanstring cs of None \<Rightarrow> None | Some (t, r) \<Rightarrow> Some (JString t, r))
          else if c = 123 then
            (case skip_ws cs of
               [] \<Rightarrow> None
             | d # ds \<Rightarrow>
                 if d = 125 then Some (JObject [], ds)
                 else (case parse_object n (d # ds) of
                         None \<Rightarrow> None
                       | Some (pairs, r) \<Rightarrow> Some (JObject (dict pairs), r)))
          else if c = 91 then
            (case skip_ws cs of
               [] \<Rightarrow> None
             | d # ds \<Rightarrow>
                 if d = 93 then Some (JArray [], ds)
                 else (case parse_array n (d # ds) of
                         None \<Rightarrow> None
                       | Some (values, r) \<Rightarrow> Some (JArray values, r)))
          else if take 4 s = [110, 117, 108, 108] then Some (JNull, drop 4 s)
          else None)"
| "parse_array 0 s = None"
| "parse_array (Suc n) s =
     (case scan_once n s of
        None \<Rightarrow> None
      | Some (v, r) \<Rightarrow>
          (case skip_ws r of
             [] \<Rightarrow> None
           | c # cs \<Rightarrow>
               if c = 93 then Some ([v], cs)
               else if c = 44 then
                 (case parse_array n (skip_ws cs) of
                    None \<Rightarrow> None
                  | Some (vs, r') \<Rightarrow> Some (v # vs, r'))
               else None))"
| "parse_object 0 s = None"
| "parse_object (Suc n) s =
     (case s of
        [] \<Rightarrow> None
      | q # s1 \<Rightarrow>
          if q \<noteq> 34 then None
          else
            (case scanstring s1 of
               None \<Rightarrow> None
             | Some (key, r) \<Rightarrow>
                 (case skip_ws r of
                    [] \<Rightarrow> None
                  | c # r1 \<Rightarrow>
                      if c \<noteq> 58 then None
                      else
                        (case scan_once n (skip_ws r1) of
                           None \<Rightarrow> None
                         | Some (v, r2) \<Rightarrow>
                             (case skip_ws r2 of
                                [] \<Rightarrow> None
                              | e # r3 \<Rightarrow>
                                  if e = 125 then Some ([(key, v)], r3)
                                  else if e = 44 then
                                    (case parse_object n (skip_ws r3) of
                                       None \<Rightarrow> None
                                     | Some (ps, r4) \<Rightarrow> Some ((key, v) # ps, r4))
                                  else None)))))"

definition json_loads :: "pystr \<Rightarrow> json option" where
  "json_loads s =
     (case scan_once (Suc (length s)) (skip_ws s) of
        None \<Rightarrow> None
      | Some (obj, r) \<Rightarrow> if skip_ws r = [] then Some obj else None)"


section \<open>save\_state\_data\<close>

text \<open>The dictionary of one chamber as a JSON object; \<open>None\<close> is \<open>null\<close>.\<close>

definition chamber_json :: "listing \<Rightarrow> json" where
  "chamber_json c =
     JObject [(py ''name'', JString (name c)),
              (py ''address'', JString (address c)),
              (py ''website'', (case website c of None \<Rightarrow> JNull | Some w \<Rightarrow> JString w))]"

text \<open>
  \<^verbatim>\<open>
  safe_state_name = sanitize_filename(state_name)
  output_data = {state_name: chambers}
  filename = f"{safe_state_name}.json"
  with open(filename, "w", encoding="utf-8") as f:
      json.dump(output_data, f, indent=4)
  print(f"Saved data for {state_name} in {filename}")
  \<close>
  The file holds the text that \<open>json.dump\<close> makes of the dictionary; nothing catches
  the exception of \<open>open\<close>.
\<close>

definition save_state_data :: "env \<Rightarrow> pystr \<Rightarrow> listing list \<Rightarrow> state \<Rightarrow> (exn + unit) \<times> state" where
  "save_state_data env state_name chambers st =
     (case sanitize_filename state_name of
        Inl e \<Rightarrow> (Inl e, st)
      | Inr safe_state_name \<Rightarrow>
          (let output_data = JObject [(state_name, JArray (map chamber_json chambers))];
               filename = safe_state_name @ py ''.json'';
               st1 = emit (OpenW filename) st
           in case open_w env (length (events st)) filename of
                Inl e \<Rightarrow> (Inl e, st1)
              | Inr _ \<Rightarrow>
                  (Inr (),
                   emit (Print (Saved state_name filename))
                     (st1\<lparr>written := (written st1)((cwd st1, filename) \<mapsto> json_dumps output_data)\<rparr>))))"

section \<open>main\<close>

text \<open>
  \<^verbatim>\<open>
  for state_name, state_url in state_links.items():
      chambers = scrape_state(driver, state_name, state_url)
      save_state_data(state_name, chambers)
  \<close>
\<close>

fun regions_loop :: "env \<Rightarrow> (pystr \<times> pystr) list \<Rightarrow> state \<Rightarrow> (exn + unit) \<times> state" where
  "regions_loop env [] st = (Inr (), st)"
| "regions_loop env ((state_name, state_url) # rest) st =
     (case scrape_state env state_name state_url st of
        (Inl e, st1) \<Rightarrow> (Inl e, st1)
      | (Inr chambers, st1) \<Rightarrow>
          (case save_state_data env state_name chambers st1 of
             (Inl e, st2) \<Rightarrow> (Inl e, st2)
           | (Inr _, st2) \<Rightarrow> regions_loop env rest st2))"

definition output_dir :: pystr where
  "output_dir = py ''chambers_by_state''"

text \<open>
  \<^verbatim>\<open>
  if not os.path.exists(output_dir):
      os.makedirs(output_dir)
  os.chdir(output_dir)
  \<close>
\<close>

definition enter_output_dir :: "env \<Rightarrow> state \<Rightarrow> (exn + unit) \<times> state" where
  "enter_output_dir env st =
     (case (if \<not> exists_dir env then (makedirs env, emit (Makedirs output_dir) st) else (Inr (), st)) of
        (Inl e, st1) \<Rightarrow> (Inl e, st1)
      | (Inr _, st1) \<Rightarrow>
          (let st2 = emit (Chdir output_dir) st1 in
           case chdir env of
             Inl e \<Rightarrow> (Inl e, st2)
           | Inr _ \<Rightarrow> (Inr (), st2\<lparr>cwd := cwd st2 @ [output_dir]\<rparr>)))"

text \<open>
  \<^verbatim>\<open>
  driver = webdriver.Chrome(options=chrome_options)
  driver.get(MAIN_PAGE)
  time.sleep(3)
  state_links = get_state_links(driver)
  if not state_links:
      print("No state links found. Please verify the page structure.")
      driver.quit()
      return
  ...
  for ...
  driver.quit()
  \<close>
  There is no \<open>try\<close> in \<open>main\<close>: an exception of any call ends the run there.
\<close>

definition main :: "env \<Rightarrow> (exn + unit) \<times> state" where
  "main env =
     (let st0 = emit Chrome init_state in
      case chrome env of
        Inl e \<Rightarrow> (Inl e, st0)
      | Inr _ \<Rightarrow>
          (case driver_get env MAIN_PAGE st0 of
             (Inl e, st1) \<Rightarrow> (Inl e, st1)
           | (Inr _, st1) \<Rightarrow>
               (let st2 = emit (Sleep 3) st1;
                    (state_links, st3) = get_state_links st2
                in if state_links = []
                   then (Inr (), emit Quit (emit (Print NoStateLinks) st3))
                   else
                     (case enter_output_dir env st3 of
                        (Inl e, st4) \<Rightarrow> (Inl e, st4)
                      | (Inr _, st4) \<Rightarrow>
                          (case regions_loop env state_links st4 of
                             (Inl e, st5) \<Rightarrow> (Inl e, st5)
                           | (Inr _, st5) \<Rightarrow> (Inr (), emit Quit st5))))))"

section \<open>The second file, scrapping.py\<close>

text \<open>
  The repository holds the module twice. The definitions below embed
  \<^verbatim>\<open>src/scrapping.py\<close>, function by function, under the prefix \<open>scrapping_\<close>; those above
  embed \<^verbatim>\<open>src/scraping.py\<close>. Both files use the same library calls, so they share the
  string operations, the browser and the state.
\<close>

definition scrapping_BASE_URL :: pystr where
  "scrapping_BASE_URL = py ''https://www.uschamber.com''"

definition scrapping_MAIN_PAGE :: pystr where
  "scrapping_MAIN_PAGE = scrapping_BASE_URL @ py ''/co/chambers''"

text \<open>Lines 15 to 20.\<close>

definition scrapping_sanitize_filename :: "pystr \<Rightarrow> exn + pystr" where
  "scrapping_sanitize_filename name0 =
     (let name1 = strip name0 in
      case (if contains name1 [LF] then index0 (split name1 LF) else Inr name1) of
        Inl e \<Rightarrow> Inl e
      | Inr name2 \<Rightarrow> Inr (re_sub invalid_char [underscore] name2))"

text \<open>Lines 22 to 37.\<close>

fun scrapping_links_loop ::
  "element list \<Rightarrow> (pystr \<times> pystr) list \<Rightarrow> exn option \<times> (pystr \<times> pystr) list" where
  "scrapping_links_loop [] state_links = (None, state_links)"
| "scrapping_links_loop (link # links) state_links =
     (case get_href link of
        Inl e \<Rightarrow> (Some e, state_links)
      | Inr href \<Rightarrow>
          (case el_text link of
             Inl e \<Rightarrow> (Some e, state_links)
           | Inr t \<Rightarrow>
               (let state_name = strip t in
                case href of
                  None \<Rightarrow> scrapping_links_loop links state_links
                | Some h \<Rightarrow>
                    if h \<noteq> [] \<and> state_name \<noteq> [] \<and> contains h (py ''/co/chambers/'') \<and>
                       h \<noteq> scrapping_MAIN_PAGE
                    then scrapping_links_loop links (AList.update state_name h state_links)
                    else scrapping_links_loop links state_links)))"

definition scrapping_get_state_links :: "state \<Rightarrow> (pystr \<times> pystr) list \<times> state" where
  "scrapping_get_state_links st =
     (let st1 = emit WaitContainer st in
      case wait_container (page st1) of
        Inl e \<Rightarrow> ([], emit (Print (ErrorStateLinks e)) st1)
      | Inr c \<Rightarrow>
          (let st2 = emit FindLinks st1 in
           case find_links c of
             Inl e \<Rightarrow> ([], emit (Print (ErrorStateLinks e)) st2)
           | Inr links \<Rightarrow>
               (case scrapping_links_loop links [] of
                  (None, state_links) \<Rightarrow> (state_links, st2)
                | (Some e, state_links) \<Rightarrow> (state_links, emit (Print (ErrorStateLinks e)) st2))))"

text \<open>Lines 39 to 91.\<close>

definition scrapping_item_name :: "item \<Rightarrow> pystr" where
  "scrapping_item_name it =
     (case find_h3 it of
        Inl e \<Rightarrow> py ''N/A''
      | Inr h \<Rightarrow> (case el_text h of Inl e \<Rightarrow> py ''N/A'' | Inr t \<Rightarrow> strip t))"

definition scrapping_item_address :: "item \<Rightarrow> pystr" where
  "scrapping_item_address it =
     (case find_address it of
        Inl e \<Rightarrow> py ''N/A''
      | Inr h \<Rightarrow> (case el_text h of Inl e \<Rightarrow> py ''N/A'' | Inr t \<Rightarrow> strip t))"

fun scrapping_website_loop :: "element list \<Rightarrow> exn + pystr option" where
  "scrapping_website_loop [] = Inr None"
| "scrapping_website_loop (a # links) =
     (case get_href a of
        Inl e \<Rightarrow> Inl e
      | Inr href \<Rightarrow>
          (case href of
             None \<Rightarrow> scrapping_website_loop links
           | Some h \<Rightarrow>
               if h \<noteq> [] \<and> startswith h (py ''http'') \<and> \<not> contains h scrapping_BASE_URL
               then Inr (Some h)
               else scrapping_website_loop links))"

definition scrapping_item_website :: "item \<Rightarrow> pystr option" where
  "scrapping_item_website it =
     (case find_anchors it of
        Inl e \<Rightarrow> None
      | Inr links \<Rightarrow> (case scrapping_website_loop links of Inl e \<Rightarrow> None | Inr w \<Rightarrow> w))"

fun scrapping_items_loop :: "item list \<Rightarrow> listing list \<Rightarrow> listing list" where
  "scrapping_items_loop [] chambers = chambers"
| "scrapping_items_loop (it # items) chambers =
     scrapping_items_loop items
       (chambers @ [\<lparr>name = scrapping_item_name it, address = scrapping_item_address it,
                     website = scrapping_item_website it\<rparr>])"

definition scrapping_scrape_state ::
  "env \<Rightarrow> pystr \<Rightarrow> pystr \<Rightarrow> state \<Rightarrow> (exn + listing list) \<times> state" where
  "scrapping_scrape_state env state_name state_url st =
     (let st1 = emit (Print (ScrapingState state_name state_url)) st;
          (r, st2) = driver_get env state_url st1
      in case r of
           Inl e \<Rightarrow> (Inl e, st2)
         | Inr _ \<Rightarrow>
             (let st3 = emit WaitItems st2 in
              case wait_items (page st3) of
                Inl e \<Rightarrow> (Inr [], emit (Print (TimedOut state_name e)) st3)
              | Inr _ \<Rightarrow>
                  (let st4 = emit (Sleep 2) st3;
                       st5 = emit FindItems st4
                   in case find_items (page st5) of
                        Inl e \<Rightarrow> (Inr [], emit (Print (ErrorScraping state_name e)) st5)
                      | Inr chamber_items \<Rightarrow> (Inr (scrapping_items_loop chamber_items []), st5))))"

text \<open>Lines 93 to 100.\<close>

definition scrapping_save_state_data ::
  "env \<Rightarrow> pystr \<Rightarrow> listing list \<Rightarrow> state \<Rightarrow> (exn + unit) \<times> state" where
  "scrapping_save_state_data env state_name chambers st =
     (case scrapping_sanitize_filename state_name of
        Inl e \<Rightarrow> (Inl e, st)
      | Inr safe_state_name \<Rightarrow>
          (let output_data = JObject [(state_name, JArray (map chamber_json chambers))];
               filename = safe_state_name @ py ''.json'';
               st1 = emit (OpenW filename) st
           in case open_w env (length (events st)) filename of
                Inl e \<Rightarrow> (Inl e, st1)
              | Inr _ \<Rightarrow>
                  (Inr (),
                   emit (Print (Saved state_name filename))
                     (st1\<lparr>written := (written st1)((cwd st1, filename) \<mapsto> json_dumps output_data)\<rparr>))))"

text \<open>Lines 102 to 133.\<close>

fun scrapping_regions_loop :: "env \<Rightarrow> (pystr \<times> pystr) list \<Rightarrow> state \<Rightarrow> (exn + unit) \<times> state" where
  "scrapping_regions_loop env [] st = (Inr (), st)"
| "scrapping_regions_loop env ((state_name, state_url) # rest) st =
     (case scrapping_scrape_state env state_name state_url st of
        (Inl e, st1) \<Rightarrow> (Inl e, st1)
      | (Inr chambers, st1) \<Rightarrow>
          (case scrapping_save_state_data env state_name chambers st1 of
             (Inl e, st2) \<Rightarrow> (Inl e, st2)
           | (Inr _, st2) \<Rightarrow> scrapping_regions_loop env rest st2))"

definition scrapping_output_dir :: pystr where
  "scrapping_output_dir = py ''chambers_by_state''"

definition scrapping_enter_output_dir :: "env \<Rightarrow> state \<Rightarrow> (exn + unit) \<times> state" where
  "scrapping_enter_output_dir env st =
     (case (if \<not> exists_dir env then (makedirs env, emit (Makedirs scrapping_output_dir) st)
            else (Inr (), st)) of
        (Inl e, st1) \<Rightarrow> (Inl e, st1)
      | (Inr _, st1) \<Rightarrow>
          (let st2 = emit (Chdir scrapping_output_dir) st1 in
           case chdir env of
             Inl e \<Rightarrow> (Inl e, st2)
           | Inr _ \<Rightarrow> (Inr (), st2\<lparr>cwd := cwd st2 @ [scrapping_output_dir]\<rparr>)))"

definition scrapping_main :: "env \<Rightarrow> (exn + unit) \<times> state" where
  "scrapping_main env =
     (let st0 = emit Chrome init_state in
      case chrome env of
        Inl e \<Rightarrow> (Inl e, st0)
      | Inr _ \<Rightarrow>
          (case driver_get env scrapping_MAIN_PAGE st0 of
             (Inl e, st1) \<Rightarrow> (Inl e, st1)
           | (Inr _, st1) \<Rightarrow>
               (let st2 = emit (Sleep 3) st1;
                    (state_links, st3) = scrapping_get_state_links st2
                in if state_links = []
                   then (Inr (), emit Quit (emit (Print NoStateLinks) st3))
                   else
                     (case scrapping_enter_output_dir env st3 of
                        (Inl e, st4) \<Rightarrow> (Inl e, st4)
                      | (Inr _, st4) \<Rightarrow>
                          (case scrapping_regions_loop env state_links st4 of
                             (Inl e, st5) \<Rightarrow> (Inl e, st5)
                           | (Inr _, st5) \<Rightarrow> (Inr (), emit Quit st5))))))"

section \<open>A run to evaluate: two regions, one of them timing out\<close>

definition texas_url :: pystr where
  "texas_url = py ''https://www.uschamber.com/co/chambers/texas''"

definition ohio_url :: pystr where
  "ohio_url = py ''https://www.uschamber.com/co/chambers/ohio''"

definition index_page :: page where
  "index_page =
     Page (Inr ())
       (Inr (Container (Inr [Element (Inr (py ''Texas'')) (Inr (Some texas_url)),
                             Element (Inr (py ''Ohio'')) (Inr (Some ohio_url))])))
       (Inl TimeoutException) (Inr [])"

text \<open>A complete listing, and one whose sub-elements are all missing.\<close>

definition austin_item :: item where
  "austin_item =
     Item (Inr (Element (Inr (py ''Austin Chamber'')) (Inr None)))
          (Inr (Element (Inr (py ''123 Main St'')) (Inr None)))
          (Inr [Element (Inr (py ''Details'')) (Inr (Some (py ''https://www.uschamber.com/co/chambers/texas/austin''))),
                Element (Inr (py ''Website'')) (Inr (Some (py ''https://austinchamber.org'')))])"

definition bare_item :: item where
  "bare_item =
     Item (Inl NoSuchElementException) (Inl NoSuchElementException) (Inl StaleElementReferenceException)"

definition texas_page :: page where
  "texas_page = Page (Inr ()) (Inl TimeoutException) (Inr ()) (Inr [austin_item, bare_item])"

definition ohio_page :: page where
  "ohio_page = Page (Inr ()) (Inl TimeoutException) (Inl TimeoutException) (Inr [])"

definition demo_browser :: "nat \<Rightarrow> pystr \<Rightarrow> page" where
  "demo_browser t url =
     (if url = MAIN_PAGE then index_page else if url = texas_url then texas_page else ohio_page)"

definition demo_env :: env where
  "demo_env =
     \<lparr>chrome = Inr (), browser = demo_browser, exists_dir = False, makedirs = Inr (),
      chdir = Inr (), open_w = (\<lambda>t f. Inr ())\<rparr>"

text \<open>The same run in a directory where no file can be opened for writing.\<close>

definition readonly_env :: env where
  "readonly_env = demo_env\<lparr>open_w := (\<lambda>t f. Inl OSError)\<rparr>"

section \<open>Notions the specification uses\<close>

text \<open>
  The page that the \<open>driver.get\<close> of \<open>scrape_state\<close> receives when the function starts
  in state \<open>st\<close>: one event, the print, comes before the navigation.
\<close>

definition served :: "env \<Rightarrow> state \<Rightarrow> pystr \<Rightarrow> page" where
  "served env st url = browser env (Suc (length (events st))) url"

text \<open>
  The test of the source on an href, \<^verbatim>\<open>href.startswith("http") and BASE_URL not in href\<close>:
  the href starts with \<open>http\<close> and the text of \<open>BASE_URL\<close> does not occur in it.
\<close>

definition website_test :: "pystr \<Rightarrow> bool" where
  "website_test h \<longleftrightarrow> startswith h (py ''http'') \<and> \<not> contains h BASE_URL"

text \<open>
  What the specification says instead: the href does not belong to the site's own base
  domain. The host of a URL is the text after \<open>http://\<close> or \<open>https://\<close> up to the first
  slash, colon, question mark or hash; a URL belongs to the base domain if its host is
  the host of \<open>BASE_URL\<close>.
\<close>

definition url_host :: "pystr \<Rightarrow> pystr" where
  "url_host u =
     takeWhile (\<lambda>c. c \<notin> {47, 58, 63, 35})
       (if startswith u (py ''https://'') then drop 8 u
        else if startswith u (py ''http://'') then drop 7 u
        else u)"

definition on_base_domain :: "pystr \<Rightarrow> bool" where
  "on_base_domain u \<longleftrightarrow> url_host u = url_host BASE_URL"

text \<open>
  Two containers on which the two readings differ: one whose only anchor leads to a
  page of the site itself over plain \<open>http\<close>, and one whose only anchor is a link to
  another site that carries a URL of this site in its query.
\<close>

definition own_page_item :: item where
  "own_page_item =
     Item (Inl NoSuchElementException) (Inl NoSuchElementException)
       (Inr [Element (Inr (py ''Home'')) (Inr (Some (py ''http://www.uschamber.com/page'')))])"

definition share_item :: item where
  "share_item =
     Item (Inl NoSuchElementException) (Inl NoSuchElementException)
       (Inr [Element (Inr (py ''Share''))
          (Inr (Some (py ''https://twitter.com/share?url=https://www.uschamber.com/co/chambers/texas'')))])"

definition links_env :: env where
  "links_env =
     \<lparr>chrome = Inr (),
      browser = (\<lambda>t url. Page (Inr ()) (Inl TimeoutException) (Inr ()) (Inr [own_page_item, share_item])),
      exists_dir = True, makedirs = Inr (), chdir = Inr (), open_w = (\<lambda>t f. Inr ())\<rparr>"

text \<open>An anchor the scan passes over: its href is read, and is absent or fails the test.\<close>

definition passed_over :: "element \<Rightarrow> bool" where
  "passed_over a =
     (case get_href a of
        Inl e \<Rightarrow> False
      | Inr None \<Rightarrow> True
      | Inr (Some h) \<Rightarrow> \<not> website_test h)"

text \<open>
  Strings that survive the way through the file: every code point is below 0x110000,
  and no high surrogate (0xD800 to 0xDBFF) stands right before a low surrogate (0xDC00
  to 0xDFFF). Every string of Unicode scalar values is of this kind.
\<close>

definition high_surrogate :: "nat \<Rightarrow> bool" where
  "high_surrogate c \<longleftrightarrow> 55296 \<le> c \<and> c \<le> 56319"

definition low_surrogate :: "nat \<Rightarrow> bool" where
  "low_surrogate c \<longleftrightarrow> 56320 \<le> c \<and> c \<le> 57343"

fun json_safe :: "pystr \<Rightarrow> bool" where
  "json_safe [] = True"
| "json_safe [c] = (c < 1114112)"
| "json_safe (c # d # s) =
     (c < 1114112 \<and> \<not> (high_surrogate c \<and> low_surrogate d) \<and> json_safe (d # s))"

definition listing_safe :: "listing \<Rightarrow> bool" where
  "listing_safe c \<longleftrightarrow>
     json_safe (name c) \<and> json_safe (address c) \<and>
     (case website c of None \<Rightarrow> True | Some w \<Rightarrow> json_safe w)"

text \<open>Documents all of whose strings are of this kind, with no key twice in an object.\<close>

fun json_ok :: "json \<Rightarrow> bool" where
  "json_ok JNull = True"
| "json_ok (JString s) = json_safe s"
| "json_ok (JArray xs) = (\<forall>x \<in> set xs. json_ok x)"
| "json_ok (JObject kvs) =
     (distinct (map fst kvs) \<and> (\<forall>kv \<in> set kvs. json_safe (fst kv) \<and> json_ok (snd kv)))"

text \<open>A character that is written as it is, and the text of one member of an object.\<close>

definition plain_char :: "nat \<Rightarrow> bool" where
  "plain_char c \<longleftrightarrow> 32 \<le> c \<and> c \<le> 126 \<and> c \<noteq> 34 \<and> c \<noteq> 92"

definition object_member :: "nat \<Rightarrow> pystr \<times> json \<Rightarrow> pystr" where
  "object_member l kv = encode_basestring_ascii (fst kv) @ [58, 32] @ iterencode l (snd kv)"

text \<open>
  A listing whose name is a high surrogate followed by a low surrogate, the two halves
  of U+1F600 as two characters of a Python string.
\<close>

definition surrogate_listing :: listing where
  "surrogate_listing = \<lparr>name = [55357, 56832], address = py ''N/A'', website = None\<rparr>"

text \<open>
  A qualifying anchor of the index page, by href and text: both non-empty (the text
  after trimming), the href on the region path and not the index page itself.
\<close>

definition qualifying :: "pystr \<Rightarrow> pystr \<Rightarrow> bool" where
  "qualifying h t \<longleftrightarrow>
     h \<noteq> [] \<and> strip t \<noteq> [] \<and> contains h (py ''/co/chambers/'') \<and> h \<noteq> MAIN_PAGE"

text \<open>
  The anchors that link discovery gets to see: none if the container does not appear
  or its anchors cannot be listed, else the anchors up to the first one whose href or
  text cannot be read, each as its href and its text.
\<close>

definition index_anchors :: "state \<Rightarrow> element list" where
  "index_anchors st =
     (case wait_container (page st) of
        Inl e \<Rightarrow> []
      | Inr c \<Rightarrow> (case find_links c of Inl e \<Rightarrow> [] | Inr links \<Rightarrow> links))"

fun inspected :: "element list \<Rightarrow> (pystr option \<times> pystr) list" where
  "inspected [] = []"
| "inspected (a # links) =
     (case get_href a of
        Inl e \<Rightarrow> []
      | Inr h \<Rightarrow> (case el_text a of Inl e \<Rightarrow> [] | Inr t \<Rightarrow> (h, t) # inspected links))"

text \<open>An inspected anchor that qualifies under the display name \<open>k\<close>.\<close>

definition qualifies_as :: "pystr \<Rightarrow> pystr option \<times> pystr \<Rightarrow> bool" where
  "qualifies_as k a =
     (case fst a of None \<Rightarrow> False | Some h \<Rightarrow> qualifying h (snd a) \<and> strip (snd a) = k)"

text \<open>
  What one inspected anchor does to the mapping: a qualifying anchor stores its href
  under its trimmed text, any other anchor leaves the mapping as it is.
\<close>

definition record_link ::
  "pystr option \<times> pystr \<Rightarrow> (pystr \<times> pystr) list \<Rightarrow> (pystr \<times> pystr) list" where
  "record_link a d =
     (case fst a of
        None \<Rightarrow> d
      | Some h \<Rightarrow> if qualifying h (snd a) then AList.update (strip (snd a)) h d else d)"

text \<open>
  An index page to evaluate link discovery on: two anchors named Texas (the second with
  blanks around the name and another href), an anchor without text, a link to the index
  page itself, a link off the region path, and an anchor without href.
\<close>

definition crowded_index :: page where
  "crowded_index =
     Page (Inr ())
       (Inr (Container (Inr
          [Element (Inr (py ''Texas'')) (Inr (Some (py ''https://www.uschamber.com/co/chambers/tx''))),
           Element (Inr (py '' '')) (Inr (Some ohio_url)),
           Element (Inr (py '' Texas '')) (Inr (Some texas_url)),
           Element (Inr (py ''All chambers'')) (Inr (Some (py ''https://www.uschamber.com/co/chambers''))),
           Element (Inr (py ''About'')) (Inr (Some (py ''https://www.uschamber.com/about''))),
           Element (Inr (py ''Top'')) (Inr None)])))
       (Inl TimeoutException) (Inr [])"

definition at_crowded_index :: state where
  "at_crowded_index = init_state\<lparr>page := crowded_index\<rparr>"

section \<open>Facts about the string operations\<close>

lemma startswith_single: "startswith (c # cs) [x] \<longleftrightarrow> c = x"
  by simp

lemma contains_single: "contains s [x] \<longleftrightarrow> x \<in> set s"
  by (induction s) auto

lemma split_not_Nil: "split s sep \<noteq> []"
  by (induction s) (auto split: list.splits)

lemma index0_split: "index0 (split s sep) = Inr (takeWhile (\<lambda>c. c \<noteq> sep) s)"
proof (induction s)
  case Nil
  show ?case by (simp add: index0_def)
next
  case (Cons c cs)
  then show ?case
    by (cases "split cs sep") (auto simp: index0_def split_not_Nil)
qed

lemma re_sub_single: "re_sub cls [u] s = map (\<lambda>c. if cls c then u else c) s"
  by (induction s) (auto simp: re_sub_def)

lemma re_sub_invalid: "re_sub invalid_char [underscore] s = replace_invalid s"
  by (simp add: re_sub_single replace_invalid_def invalid_char_def invalid_chars_def)

lemma sanitize_filename_eq:
  "sanitize_filename s =
     Inr (replace_invalid (if LF \<in> set (strip s) then before_first_line_break (strip s) else strip s))"
  by (simp add: sanitize_filename_def Let_def contains_single index0_split re_sub_invalid
      before_first_line_break_def)

lemma set_strip: "set (strip s) \<subseteq> set s"
proof -
  have "set (strip s) = set (dropWhile isspace (rev (dropWhile isspace s)))"
    by (simp add: strip_def)
  also have "\<dots> \<subseteq> set (rev (dropWhile isspace s))"
    by (rule set_dropWhileD [THEN subsetI])
  also have "\<dots> \<subseteq> set s"
    using set_dropWhileD [of _ isspace s] by auto
  finally show ?thesis .
qed

lemma strip_map:
  assumes "\<And>c. isspace (f c) = isspace c"
  shows "strip (map f s) = map f (strip s)"
proof -
  have comp: "isspace \<circ> f = isspace"
    using assms by (simp add: fun_eq_iff)
  show ?thesis
    by (simp add: strip_def dropWhile_map rev_map comp)
qed

lemma isspace_underscore: "\<not> isspace underscore"
  by (simp add: isspace_def underscore_def)

lemma isspace_invalid: "c \<in> {92, 47, 42, 63, 58, 34, 60, 62, 124} \<Longrightarrow> \<not> isspace c"
  by (auto simp: isspace_def)

lemma strip_replace_invalid: "strip (replace_invalid s) = replace_invalid (strip s)"
  unfolding replace_invalid_def
  by (rule strip_map) (use isspace_underscore isspace_invalid in auto)

lemma replace_invalid_idem: "replace_invalid (replace_invalid s) = replace_invalid s"
  by (induction s) (auto simp: replace_invalid_def underscore_def)

lemma LF_replace_invalid: "LF \<in> set (replace_invalid s) \<longleftrightarrow> LF \<in> set s"
  by (induction s) (auto simp: replace_invalid_def underscore_def LF_def)

lemma LF_before_first_line_break: "LF \<notin> set (before_first_line_break s)"
  unfolding before_first_line_break_def
  using set_takeWhileD [of LF "\<lambda>c. c \<noteq> LF" s] by blast

lemma dropWhile_hd_eq: "xs \<noteq> [] \<Longrightarrow> \<not> P (hd xs) \<Longrightarrow> dropWhile P xs = xs"
  by (cases xs) auto

lemma dropWhile_rev_prefix:
  assumes "dropWhile P s = s"
  shows "dropWhile P (rev (dropWhile P (rev s))) = rev (dropWhile P (rev s))"
proof (cases "dropWhile P (rev s) = []")
  case True
  show ?thesis by (simp only: True rev.simps dropWhile.simps)
next
  case False
  define b where "b = dropWhile P (rev s)"
  from False have bne: "b \<noteq> []" by (simp add: b_def)
  have "rev s = takeWhile P (rev s) @ b"
    by (simp add: b_def)
  then have "s = rev b @ rev (takeWhile P (rev s))"
    by (metis rev_append rev_rev_ident)
  with bne have hd_eq: "hd (rev b) = hd s" and sne: "s \<noteq> []"
    by (metis hd_append2 rev_is_Nil_conv, auto)
  from assms sne have "\<not> P (hd s)"
    by (metis hd_dropWhile)
  with hd_eq bne have "dropWhile P (rev b) = rev b"
    by (simp add: dropWhile_hd_eq)
  then show ?thesis by (simp add: b_def)
qed

lemma strip_strip: "strip (strip s) = strip s"
proof -
  define a where "a = dropWhile isspace s"
  have a: "dropWhile isspace a = a"
    by (simp add: a_def)
  have "dropWhile isspace (rev (dropWhile isspace (rev a))) = rev (dropWhile isspace (rev a))"
    by (rule dropWhile_rev_prefix [OF a])
  then show ?thesis
    by (simp add: strip_def a_def [symmetric])
qed

section \<open>Theorems about sanitize\_filename\<close>

text \<open>
  C2. For every string, \<open>sanitize_filename\<close> returns, and never raises: its result is
  the input trimmed, cut before the first line break if the trimmed text has one, with
  each of the nine listed characters replaced by an underscore.
\<close>

theorem sanitize_filename_meets_spec: "sanitize_filename s = Inr (sanitizer_spec s)"
  by (simp add: sanitize_filename_eq sanitizer_spec_def Let_def)

lemma sanitize_result_no_LF:
  "LF \<notin> set (replace_invalid (if LF \<in> set t then before_first_line_break t else t))"
  by (simp add: LF_replace_invalid LF_before_first_line_break)

lemma sanitize_of_sanitized:
  assumes "sanitize_filename s = Inr r"
  shows "sanitize_filename r = Inr (strip r)"
proof -
  define u where "u = (if LF \<in> set (strip s) then before_first_line_break (strip s) else strip s)"
  from assms have r: "r = replace_invalid u"
    by (simp add: sanitize_filename_eq u_def)
  have "LF \<notin> set r"
    unfolding r u_def by (rule sanitize_result_no_LF)
  with set_strip [of r] have noLF: "LF \<notin> set (strip r)"
    by blast
  have "replace_invalid (strip r) = strip (replace_invalid r)"
    by (simp add: strip_replace_invalid)
  also have "\<dots> = strip r"
    by (simp add: r replace_invalid_idem)
  finally show ?thesis
    using noLF by (simp add: sanitize_filename_eq)
qed

lemma sanitize_single_line_stripped:
  assumes "LF \<notin> set (strip s)" and "sanitize_filename s = Inr r"
  shows "strip r = r"
proof -
  from assms have r: "r = replace_invalid (strip s)"
    by (simp add: sanitize_filename_eq)
  show ?thesis
    by (simp add: r strip_replace_invalid strip_strip)
qed

text \<open>
  C3 (as amended). A second application of \<open>sanitize_filename\<close> only trims its argument
  again: if the first application returns \<open>r\<close>, the second returns \<open>strip r\<close>. Hence
  the sanitizer is idempotent on every string whose trimmed form has no line break.
\<close>

theorem sanitize_twice_trims:
  "sanitize_filename s = Inr r \<Longrightarrow>
     sanitize_twice s = Inr (strip r) \<and>
     (LF \<notin> set (strip s) \<longrightarrow> sanitize_twice s = sanitize_filename s)"
  by (simp add: sanitize_twice_def sanitize_of_sanitized sanitize_single_line_stripped)

text \<open>
  The witness: \<^verbatim>\<open>" a/b "\<close> is sanitized to \<^verbatim>\<open>"a_b"\<close>, and sanitizing again changes
  nothing.
\<close>

theorem sanitize_twice_trims_witness:
  "sanitize_filename [32, 97, 47, 98, 32] = Inr [97, 95, 98] \<and>
   LF \<notin> set (strip [32, 97, 47, 98, 32]) \<and>
   sanitize_twice [32, 97, 47, 98, 32] = Inr [97, 95, 98]"
proof -
  have r: "sanitize_filename [32, 97, 47, 98, 32] = Inr [97, 95, 98]"
    by (simp add: sanitize_filename_eq strip_def isspace_def LF_def replace_invalid_def
        underscore_def)
  have n: "LF \<notin> set (strip [32, 97, 47, 98, 32])"
    by (simp add: strip_def isspace_def LF_def)
  from sanitize_twice_trims [OF r] n
  have "sanitize_twice [32, 97, 47, 98, 32] = sanitize_filename [32, 97, 47, 98, 32]"
    by blast
  with r n show ?thesis
    by simp
qed

text \<open>
  C3 as stated fails: \<^verbatim>\<open>"a \nb"\<close> is sanitized to \<^verbatim>\<open>"a "\<close> (the cut at the line break
  comes after the trimming and leaves the blank), and \<^verbatim>\<open>"a "\<close> is sanitized to
  \<^verbatim>\<open>"a"\<close>.
\<close>

theorem sanitize_not_idempotent:
  "sanitize_filename [97, 32, 10, 98] = Inr [97, 32] \<and>
   sanitize_twice [97, 32, 10, 98] = Inr [97] \<and>
   sanitize_twice [97, 32, 10, 98] \<noteq> sanitize_filename [97, 32, 10, 98]"
  by (simp add: sanitize_twice_def sanitize_filename_eq strip_def isspace_def LF_def
      replace_invalid_def before_first_line_break_def underscore_def)

section \<open>The two files\<close>

lemma scrapping_BASE_URL_eq: "scrapping_BASE_URL = BASE_URL"
  by (simp add: scrapping_BASE_URL_def BASE_URL_def)

lemma scrapping_MAIN_PAGE_eq: "scrapping_MAIN_PAGE = MAIN_PAGE"
  by (simp add: scrapping_MAIN_PAGE_def MAIN_PAGE_def scrapping_BASE_URL_eq)

lemma scrapping_sanitize_filename_eq: "scrapping_sanitize_filename s = sanitize_filename s"
  by (simp add: scrapping_sanitize_filename_def sanitize_filename_def)

lemma scrapping_links_loop_eq: "scrapping_links_loop links d = links_loop links d"
  by (induction links d rule: links_loop.induct)
    (simp_all add: scrapping_MAIN_PAGE_eq Let_def split: sum.splits option.splits)

lemma scrapping_get_state_links_eq: "scrapping_get_state_links st = get_state_links st"
  unfolding scrapping_get_state_links_def get_state_links_def scrapping_links_loop_eq
  by (rule refl)

lemma scrapping_item_name_eq: "scrapping_item_name it = item_name it"
  by (simp add: scrapping_item_name_def item_name_def name_lookup_def split: sum.splits)

lemma scrapping_item_address_eq: "scrapping_item_address it = item_address it"
  by (simp add: scrapping_item_address_def item_address_def address_lookup_def split: sum.splits)

lemma scrapping_website_loop_eq: "scrapping_website_loop links = website_loop links"
  by (induction links rule: website_loop.induct)
    (simp_all add: scrapping_BASE_URL_eq split: sum.splits option.splits)

lemma scrapping_item_website_eq: "scrapping_item_website it = item_website it"
  unfolding scrapping_item_website_def item_website_def scrapping_website_loop_eq
  by (rule refl)

lemma scrapping_items_loop_eq: "scrapping_items_loop items acc = items_loop items acc"
  by (induction items arbitrary: acc)
    (simp_all add: scrapping_item_name_eq scrapping_item_address_eq scrapping_item_website_eq)

lemma scrapping_scrape_state_eq:
  "scrapping_scrape_state env n u st = scrape_state env n u st"
  unfolding scrapping_scrape_state_def scrape_state_def scrapping_items_loop_eq
  by (rule refl)

lemma scrapping_save_state_data_eq:
  "scrapping_save_state_data env n cs st = save_state_data env n cs st"
  unfolding scrapping_save_state_data_def save_state_data_def scrapping_sanitize_filename_eq
  by (rule refl)

lemma scrapping_regions_loop_eq: "scrapping_regions_loop env rs st = regions_loop env rs st"
  by (induction env rs st rule: regions_loop.induct)
    (simp_all add: scrapping_scrape_state_eq scrapping_save_state_data_eq
      split: prod.splits sum.splits)

lemma scrapping_enter_output_dir_eq: "scrapping_enter_output_dir env st = enter_output_dir env st"
  unfolding scrapping_enter_output_dir_def enter_output_dir_def scrapping_output_dir_def
    output_dir_def
  by (rule refl)

lemma scrapping_main_eq: "scrapping_main env = main env"
  unfolding scrapping_main_def main_def scrapping_MAIN_PAGE_eq scrapping_get_state_links_eq
    scrapping_enter_output_dir_eq scrapping_regions_loop_eq
  by (rule refl)

text \<open>
  C9. The two files are equivalent: each function of \<^verbatim>\<open>scrapping.py\<close> returns the same
  result and leaves the same state (events, page, working directory, files written) as
  the function of the same name in \<^verbatim>\<open>scraping.py\<close>, for every argument, state and
  environment.
\<close>

theorem files_equivalent:
  "scrapping_sanitize_filename = sanitize_filename \<and>
   scrapping_get_state_links = get_state_links \<and>
   scrapping_scrape_state = scrape_state \<and>
   scrapping_save_state_data = save_state_data \<and>
   scrapping_main = main"
  by (simp add: fun_eq_iff scrapping_sanitize_filename_eq scrapping_get_state_links_eq
      scrapping_scrape_state_eq scrapping_save_state_data_eq scrapping_main_eq)

section \<open>Facts about scrape\_state\<close>

lemma items_loop_eq:
  "items_loop items acc =
     acc @ map (\<lambda>it. \<lparr>name = item_name it, address = item_address it, website = item_website it\<rparr>) items"
  by (induction items arbitrary: acc) simp_all

lemma scrape_state_load_fails:
  assumes "load (served env st u) = Inl e"
  shows "scrape_state env n u st =
     (Inl e, st\<lparr>events := events st @ [Print (ScrapingState n u), DriverGet u],
               page := served env st u\<rparr>)"
  using assms by (simp add: scrape_state_def driver_get_def emit_def served_def Let_def)

lemma scrape_state_wait_fails:
  assumes "load (served env st u) = Inr ()" and "wait_items (served env st u) = Inl e"
  shows "scrape_state env n u st =
     (Inr [], st\<lparr>events := events st @ [Print (ScrapingState n u), DriverGet u, WaitItems,
                                        Print (TimedOut n e)],
               page := served env st u\<rparr>)"
  using assms by (simp add: scrape_state_def driver_get_def emit_def served_def Let_def)

lemma scrape_state_find_fails:
  assumes "load (served env st u) = Inr ()" and "wait_items (served env st u) = Inr ()"
    and "find_items (served env st u) = Inl e"
  shows "scrape_state env n u st =
     (Inr [], st\<lparr>events := events st @ [Print (ScrapingState n u), DriverGet u, WaitItems,
                                        Sleep 2, FindItems, Print (ErrorScraping n e)],
               page := served env st u\<rparr>)"
  using assms by (simp add: scrape_state_def driver_get_def emit_def served_def Let_def)

lemma scrape_state_items:
  assumes "load (served env st u) = Inr ()" and "wait_items (served env st u) = Inr ()"
    and "find_items (served env st u) = Inr items"
  shows "scrape_state env n u st =
     (Inr (map (\<lambda>it. \<lparr>name = item_name it, address = item_address it, website = item_website it\<rparr>) items),
      st\<lparr>events := events st @ [Print (ScrapingState n u), DriverGet u, WaitItems,
                                Sleep 2, FindItems],
         page := served env st u\<rparr>)"
  using assms by (simp add: scrape_state_def driver_get_def emit_def served_def Let_def items_loop_eq)

lemma scrape_state_result:
  "fst (scrape_state env n u st) = Inr chambers \<Longrightarrow>
     chambers = [] \<or> (\<exists>items. chambers = map (\<lambda>it. \<lparr>name = item_name it, address = item_address it, website = item_website it\<rparr>) items)"
  by (cases "load (served env st u)"; cases "wait_items (served env st u)"; cases "find_items (served env st u)")
     (auto simp: scrape_state_load_fails scrape_state_wait_fails scrape_state_find_fails scrape_state_items)


lemma website_loop_http:
  "website_loop links = Inr (Some w) \<Longrightarrow> startswith w (py ''http'')"
  by (induction links rule: website_loop.induct) (auto split: sum.splits option.splits if_splits)

lemma item_website_http: "item_website it = Some w \<Longrightarrow> startswith w (py ''http'')"
  by (auto simp: item_website_def website_loop_http split: sum.splits)

lemma website_test_nonempty: "website_test h \<Longrightarrow> h \<noteq> []"
  by (auto simp: website_test_def py_def)

lemma website_loop_step:
  "website_loop (a # links) =
     (case get_href a of
        Inl e \<Rightarrow> Inl e
      | Inr None \<Rightarrow> website_loop links
      | Inr (Some h) \<Rightarrow> if website_test h then Inr (Some h) else website_loop links)"
  using website_test_nonempty by (auto simp: website_test_def split: sum.splits option.splits)

lemma website_loop_first_match:
  "website_loop links = Inr (Some h) \<longleftrightarrow>
     (\<exists>pre a post. links = pre @ a # post \<and> (\<forall>b \<in> set pre. passed_over b) \<and>
        get_href a = Inr (Some h) \<and> website_test h)"
  (is "?L links \<longleftrightarrow> ?R links")
proof (induction links)
  case Nil
  show ?case by simp
next
  case (Cons x xs)
  show ?case
  proof (cases "passed_over x")
    case True
    then have step: "website_loop (x # xs) = website_loop xs"
      unfolding website_loop_step by (auto simp: passed_over_def split: sum.splits option.splits)
    have "?R (x # xs) \<longleftrightarrow> ?R xs"
    proof
      assume "?R (x # xs)"
      then obtain pre a post where d: "x # xs = pre @ a # post" "\<forall>b \<in> set pre. passed_over b"
        "get_href a = Inr (Some h)" "website_test h" by blast
      from True d(3,4) have "a \<noteq> x" by (auto simp: passed_over_def)
      with d(1) obtain pre' where "pre = x # pre'" by (cases pre) auto
      with d show "?R xs" by auto
    next
      assume "?R xs"
      then obtain pre a post where d: "xs = pre @ a # post" "\<forall>b \<in> set pre. passed_over b"
        "get_href a = Inr (Some h)" "website_test h" by blast
      then have "x # xs = (x # pre) @ a # post \<and> (\<forall>b \<in> set (x # pre). passed_over b)"
        using True by simp
      with d(3,4) show "?R (x # xs)" by blast
    qed
    with step Cons show ?thesis by simp
  next
    case False
    have "?R (x # xs) \<longleftrightarrow> get_href x = Inr (Some h) \<and> website_test h"
    proof
      assume "?R (x # xs)"
      then obtain pre a post where d: "x # xs = pre @ a # post" "\<forall>b \<in> set pre. passed_over b"
        "get_href a = Inr (Some h)" "website_test h" by blast
      from False d(1,2) have "pre = []" by (cases pre) auto
      with d show "get_href x = Inr (Some h) \<and> website_test h" by simp
    next
      assume "get_href x = Inr (Some h) \<and> website_test h"
      then have "x # xs = [] @ x # xs \<and> (\<forall>b \<in> set []. passed_over b) \<and>
          get_href x = Inr (Some h) \<and> website_test h" by simp
      then show "?R (x # xs)" by blast
    qed
    moreover from False have "?L (x # xs) \<longleftrightarrow> get_href x = Inr (Some h) \<and> website_test h"
      unfolding website_loop_step by (auto simp: passed_over_def split: sum.splits option.splits)
    ultimately show ?thesis by simp
  qed
qed

lemma item_website_first_match:
  "item_website it = Some h \<longleftrightarrow>
     (\<exists>pre a post. find_anchors it = Inr (pre @ a # post) \<and> (\<forall>b \<in> set pre. passed_over b) \<and>
        get_href a = Inr (Some h) \<and> website_test h)"
proof (cases "find_anchors it")
  case (Inl e)
  then show ?thesis by (simp add: item_website_def)
next
  case (Inr links)
  have "item_website it = Some h \<longleftrightarrow> website_loop links = Inr (Some h)"
    by (simp add: item_website_def Inr split: sum.splits)
  then show ?thesis
    by (simp add: website_loop_first_match Inr)
qed


lemmas demo_simps =
  py_def MAIN_PAGE_def BASE_URL_def texas_url_def ohio_url_def index_page_def austin_item_def
  bare_item_def texas_page_def ohio_page_def demo_browser_def demo_env_def readonly_env_def
  init_state_def blank_page_def served_def

lemmas item_simps =
  item_name_def item_address_def item_website_def name_lookup_def address_lookup_def
  strip_def isspace_def

lemma demo_texas_served:
  "load (served demo_env init_state texas_url) = Inr () \<and>
   wait_items (served demo_env init_state texas_url) = Inr () \<and>
   find_items (served demo_env init_state texas_url) = Inr [austin_item, bare_item]"
  by (simp add: demo_simps)

lemma demo_austin:
  "\<lparr>name = item_name austin_item, address = item_address austin_item,
    website = item_website austin_item\<rparr> =
   \<lparr>name = py ''Austin Chamber'', address = py ''123 Main St'',
    website = Some (py ''https://austinchamber.org'')\<rparr>"
  by (simp add: austin_item_def item_simps py_def BASE_URL_def)

lemma demo_bare:
  "\<lparr>name = item_name bare_item, address = item_address bare_item,
    website = item_website bare_item\<rparr> =
   \<lparr>name = py ''N/A'', address = py ''N/A'', website = None\<rparr>"
  by (simp add: bare_item_def item_simps)

lemma demo_texas_chambers:
  "fst (scrape_state demo_env (py ''Texas'') texas_url init_state) =
     Inr [\<lparr>name = py ''Austin Chamber'', address = py ''123 Main St'',
           website = Some (py ''https://austinchamber.org'')\<rparr>,
          \<lparr>name = py ''N/A'', address = py ''N/A'', website = None\<rparr>]"
  using demo_texas_served
  by (simp add: scrape_state_items demo_austin demo_bare)

text \<open>
  C10. Whatever the browser answers, on every path on which \<open>scrape_state\<close> returns a
  sequence, each element is a \<open>listing\<close>, the record of exactly the fields \<open>name\<close>,
  \<open>address\<close> (strings) and \<open>website\<close>, and the \<open>website\<close> is null or a string that
  starts with \<open>http\<close>.
\<close>

theorem scrape_state_listings_well_formed:
  "fst (scrape_state env n u st) = Inr chambers \<Longrightarrow>
     \<forall>c \<in> set chambers. website c = None \<or> (\<exists>w. website c = Some w \<and> startswith w (py ''http''))"
proof -
  assume "fst (scrape_state env n u st) = Inr chambers"
  from scrape_state_result [OF this] show ?thesis
  proof
    assume "chambers = []"
    then show ?thesis by simp
  next
    assume "\<exists>items. chambers = map (\<lambda>it. \<lparr>name = item_name it, address = item_address it,
      website = item_website it\<rparr>) items"
    then obtain items where cs: "chambers = map (\<lambda>it. \<lparr>name = item_name it,
      address = item_address it, website = item_website it\<rparr>) items" ..
    show ?thesis
    proof
      fix c
      assume "c \<in> set chambers"
      with cs obtain it where c: "c = \<lparr>name = item_name it, address = item_address it,
        website = item_website it\<rparr>" by auto
      show "website c = None \<or> (\<exists>w. website c = Some w \<and> startswith w (py ''http''))"
        by (cases "item_website it") (simp_all add: c item_website_http)
    qed
  qed
qed

text \<open>The witness: the Texas page of the run above, with one website and one null.\<close>

theorem scrape_state_listings_well_formed_witness:
  "fst (scrape_state demo_env (py ''Texas'') texas_url init_state) =
     Inr [\<lparr>name = py ''Austin Chamber'', address = py ''123 Main St'',
           website = Some (py ''https://austinchamber.org'')\<rparr>,
          \<lparr>name = py ''N/A'', address = py ''N/A'', website = None\<rparr>] \<and>
   startswith (py ''https://austinchamber.org'') (py ''http'')"
  using scrape_state_listings_well_formed [OF demo_texas_chambers] demo_texas_chambers
  by simp

text \<open>
  C1 (as amended). When the containers of a region page are enumerated, each container
  is recorded, in order; if looking up the heading or reading its text fails, the name
  of its listing is the sentinel \<^verbatim>\<open>"N/A"\<close>, and if looking up the address element or
  reading its text fails, the address is \<^verbatim>\<open>"N/A"\<close>.
\<close>

theorem scrape_state_sentinels:
  assumes "load (served env st u) = Inr ()"
    and "wait_items (served env st u) = Inr ()"
    and "find_items (served env st u) = Inr items"
  shows "\<exists>chambers. fst (scrape_state env n u st) = Inr chambers \<and>
           length chambers = length items \<and>
           (\<forall>i<length items.
              (\<forall>e. name_lookup (items ! i) = Inl e \<longrightarrow> name (chambers ! i) = py ''N/A'') \<and>
              (\<forall>e. address_lookup (items ! i) = Inl e \<longrightarrow> address (chambers ! i) = py ''N/A''))"
  using assms by (auto simp: scrape_state_items item_name_def item_address_def)

text \<open>The witness: the second container of the Texas page has neither heading nor address.\<close>

theorem scrape_state_sentinels_witness:
  "fst (scrape_state demo_env (py ''Texas'') texas_url init_state) =
     Inr [\<lparr>name = py ''Austin Chamber'', address = py ''123 Main St'',
           website = Some (py ''https://austinchamber.org'')\<rparr>,
          \<lparr>name = py ''N/A'', address = py ''N/A'', website = None\<rparr>] \<and>
   name_lookup ([austin_item, bare_item] ! 1) = Inl NoSuchElementException \<and>
   address_lookup ([austin_item, bare_item] ! 1) = Inl NoSuchElementException"
proof -
  from demo_texas_served have a: "load (served demo_env init_state texas_url) = Inr ()"
    and b: "wait_items (served demo_env init_state texas_url) = Inr ()"
    and c: "find_items (served demo_env init_state texas_url) = Inr [austin_item, bare_item]"
    by simp_all
  from scrape_state_sentinels [OF a b c, of "py ''Texas''"] demo_texas_chambers
  show ?thesis
    by (simp add: name_lookup_def address_lookup_def bare_item_def)
qed

text \<open>
  C1 as stated fails: for a container without heading and address the fields are
  \<^verbatim>\<open>"N/A"\<close>, which is not the string \<^verbatim>\<open>"unknown"\<close>.
\<close>

theorem sentinel_is_not_unknown:
  "name_lookup bare_item = Inl NoSuchElementException \<and>
   address_lookup bare_item = Inl NoSuchElementException \<and>
   find_items (served demo_env init_state texas_url) = Inr [austin_item, bare_item] \<and>
   map name (projr (fst (scrape_state demo_env (py ''Texas'') texas_url init_state))) =
     [py ''Austin Chamber'', py ''N/A''] \<and>
   map address (projr (fst (scrape_state demo_env (py ''Texas'') texas_url init_state))) =
     [py ''123 Main St'', py ''N/A''] \<and>
   py ''N/A'' \<noteq> py ''unknown''"
proof -
  have "py ''N/A'' \<noteq> py ''unknown''"
    by (simp add: py_def)
  with demo_texas_served show ?thesis
    by (simp add: demo_texas_chambers name_lookup_def address_lookup_def bare_item_def)
qed

text \<open>
  C5 (as amended). When the containers of a region page are enumerated, the website of a
  listing is \<open>h\<close> exactly if \<open>h\<close> is the href of the first anchor of the container, in
  enumeration order, whose href starts with \<open>http\<close> and does not contain the text of
  \<open>BASE_URL\<close>, every anchor before it having been read and passed over. In every other
  case (no such anchor, the anchors cannot be listed, an href cannot be read before one
  is found) the website is null, \<open>None\<close> being the only other value of the field.
\<close>

theorem scrape_state_website:
  assumes "load (served env st u) = Inr ()"
    and "wait_items (served env st u) = Inr ()"
    and "find_items (served env st u) = Inr items"
  shows "\<exists>chambers. fst (scrape_state env n u st) = Inr chambers \<and>
           length chambers = length items \<and>
           (\<forall>i<length items. \<forall>h.
              website (chambers ! i) = Some h \<longleftrightarrow>
                (\<exists>pre a post. find_anchors (items ! i) = Inr (pre @ a # post) \<and>
                   (\<forall>b \<in> set pre. passed_over b) \<and>
                   get_href a = Inr (Some h) \<and> website_test h))"
  using assms by (simp add: scrape_state_items item_website_first_match)

text \<open>The witness: the first container of the Texas page, whose second anchor passes the test.\<close>

theorem scrape_state_website_witness:
  "find_items (served demo_env init_state texas_url) = Inr [austin_item, bare_item] \<and>
   (\<exists>pre a post. find_anchors austin_item = Inr (pre @ a # post) \<and>
      (\<forall>b \<in> set pre. passed_over b) \<and>
      get_href a = Inr (Some (py ''https://austinchamber.org'')) \<and>
      website_test (py ''https://austinchamber.org''))"
proof -
  from demo_texas_served have a: "load (served demo_env init_state texas_url) = Inr ()"
    and b: "wait_items (served demo_env init_state texas_url) = Inr ()"
    and c: "find_items (served demo_env init_state texas_url) = Inr [austin_item, bare_item]"
    by simp_all
  from scrape_state_website [OF a b c, of "py ''Texas''"] obtain chambers where
    r: "fst (scrape_state demo_env (py ''Texas'') texas_url init_state) = Inr chambers"
    and w: "\<forall>i<length [austin_item, bare_item]. \<forall>h.
              website (chambers ! i) = Some h \<longleftrightarrow>
                (\<exists>pre a post. find_anchors ([austin_item, bare_item] ! i) = Inr (pre @ a # post) \<and>
                   (\<forall>b \<in> set pre. passed_over b) \<and>
                   get_href a = Inr (Some h) \<and> website_test h)"
    by blast
  from r have "website (chambers ! 0) = Some (py ''https://austinchamber.org'')"
    by (auto simp: demo_texas_chambers)
  with w [rule_format, of 0 "py ''https://austinchamber.org''"] c show ?thesis
    by simp
qed

text \<open>
  C5 as stated fails, in both directions. The href \<^verbatim>\<open>http://www.uschamber.com/page\<close>
  belongs to the site's own domain, yet it starts with \<open>http\<close> and the text of \<open>BASE_URL\<close>
  (which begins with \<open>https\<close>) does not occur in it: it becomes the website. The share
  link belongs to another domain and starts with \<open>http\<close>, yet the text of \<open>BASE_URL\<close>
  occurs in its query: it is passed over and the website is null.
\<close>

theorem website_test_is_not_domain_test:
  "find_items (served links_env init_state texas_url) = Inr [own_page_item, share_item] \<and>
   map website (projr (fst (scrape_state links_env (py ''Texas'') texas_url init_state))) =
     [Some (py ''http://www.uschamber.com/page''), None] \<and>
   startswith (py ''http://www.uschamber.com/page'') (py ''http'') \<and>
   on_base_domain (py ''http://www.uschamber.com/page'') \<and>
   find_anchors share_item =
     Inr [Element (Inr (py ''Share''))
       (Inr (Some (py ''https://twitter.com/share?url=https://www.uschamber.com/co/chambers/texas'')))] \<and>
   startswith (py ''https://twitter.com/share?url=https://www.uschamber.com/co/chambers/texas'')
     (py ''http'') \<and>
   \<not> on_base_domain (py ''https://twitter.com/share?url=https://www.uschamber.com/co/chambers/texas'')"
proof -
  have p: "load (served links_env init_state texas_url) = Inr ()"
    "wait_items (served links_env init_state texas_url) = Inr ()"
    "find_items (served links_env init_state texas_url) = Inr [own_page_item, share_item]"
    by (simp_all add: served_def links_env_def)
  have w: "item_website own_page_item = Some (py ''http://www.uschamber.com/page'')"
    "item_website share_item = None"
    by (simp_all add: item_website_def own_page_item_def share_item_def py_def BASE_URL_def)
  have d: "on_base_domain (py ''http://www.uschamber.com/page'')"
    "\<not> on_base_domain (py ''https://twitter.com/share?url=https://www.uschamber.com/co/chambers/texas'')"
    by (simp_all add: on_base_domain_def url_host_def py_def BASE_URL_def)
  have h: "startswith (py ''http://www.uschamber.com/page'') (py ''http'')"
    "startswith (py ''https://twitter.com/share?url=https://www.uschamber.com/co/chambers/texas'')
       (py ''http'')"
    by (simp_all add: py_def)
  from p w d h show ?thesis
    by (simp add: scrape_state_items share_item_def)
qed

text \<open>
  C7. If the wait for a listing container fails on a region page, \<open>scrape_state\<close> returns
  the empty sequence at once: after the navigation and the wait it only prints, so there
  is no second navigation, no retry, no settle delay and no enumeration. The loop of
  \<open>main\<close> then saves the empty sequence for the region and, the save returning, goes
  on with the remaining regions.
\<close>

theorem scrape_state_timeout:
  assumes "load (served env st u) = Inr ()"
    and "wait_items (served env st u) = Inl e"
  shows "fst (scrape_state env n u st) = Inr [] \<and>
         events (snd (scrape_state env n u st)) =
           events st @ [Print (ScrapingState n u), DriverGet u, WaitItems, Print (TimedOut n e)] \<and>
         regions_loop env ((n, u) # rest) st =
           (case save_state_data env n [] (snd (scrape_state env n u st)) of
              (Inl x, st2) \<Rightarrow> (Inl x, st2)
            | (Inr _, st2) \<Rightarrow> regions_loop env rest st2)"
  using assms by (simp add: scrape_state_wait_fails)

lemma demo_ohio_served:
  "load (served demo_env init_state ohio_url) = Inr () \<and>
   wait_items (served demo_env init_state ohio_url) = Inl TimeoutException"
  by (simp add: demo_simps)

lemma demo_save_returns: "fst (save_state_data demo_env n cs st) = Inr ()"
  by (simp add: save_state_data_def sanitize_filename_eq demo_env_def Let_def)

text \<open>
  The witness: Ohio, whose page times out, before Texas; after the timeout the loop
  saves the empty sequence for Ohio and goes on with Texas.
\<close>

theorem scrape_state_timeout_witness:
  "load (served demo_env init_state ohio_url) = Inr () \<and>
   wait_items (served demo_env init_state ohio_url) = Inl TimeoutException \<and>
   fst (scrape_state demo_env (py ''Ohio'') ohio_url init_state) = Inr [] \<and>
   events (snd (scrape_state demo_env (py ''Ohio'') ohio_url init_state)) =
     [Print (ScrapingState (py ''Ohio'') ohio_url), DriverGet ohio_url, WaitItems,
      Print (TimedOut (py ''Ohio'') TimeoutException)] \<and>
   regions_loop demo_env [(py ''Ohio'', ohio_url), (py ''Texas'', texas_url)] init_state =
     regions_loop demo_env [(py ''Texas'', texas_url)]
       (snd (save_state_data demo_env (py ''Ohio'') []
          (snd (scrape_state demo_env (py ''Ohio'') ohio_url init_state))))"
proof -
  from demo_ohio_served have a: "load (served demo_env init_state ohio_url) = Inr ()"
    and b: "wait_items (served demo_env init_state ohio_url) = Inl TimeoutException"
    by simp_all
  define st1 where "st1 = snd (scrape_state demo_env (py ''Ohio'') ohio_url init_state)"
  have s: "save_state_data demo_env (py ''Ohio'') [] st1 =
      (Inr (), snd (save_state_data demo_env (py ''Ohio'') [] st1))"
    using demo_save_returns [of "py ''Ohio''" "[]" st1]
    by (cases "save_state_data demo_env (py ''Ohio'') [] st1") simp
  from scrape_state_timeout [OF a b, of "py ''Ohio''" "[(py ''Texas'', texas_url)]"]
  have t: "fst (scrape_state demo_env (py ''Ohio'') ohio_url init_state) = Inr []"
    and e: "events st1 = events init_state @
        [Print (ScrapingState (py ''Ohio'') ohio_url), DriverGet ohio_url, WaitItems,
         Print (TimedOut (py ''Ohio'') TimeoutException)]"
    and l: "regions_loop demo_env [(py ''Ohio'', ohio_url), (py ''Texas'', texas_url)] init_state =
        (case save_state_data demo_env (py ''Ohio'') [] st1 of
           (Inl x, st2) \<Rightarrow> (Inl x, st2)
         | (Inr _, st2) \<Rightarrow> regions_loop demo_env [(py ''Texas'', texas_url)] st2)"
    unfolding st1_def by blast+
  from l have "regions_loop demo_env [(py ''Ohio'', ohio_url), (py ''Texas'', texas_url)] init_state =
      regions_loop demo_env [(py ''Texas'', texas_url)]
        (snd (save_state_data demo_env (py ''Ohio'') [] st1))"
    by (subst (asm) s) simp
  with a b t e show ?thesis
    by (simp add: st1_def init_state_def)
qed

section \<open>Facts about get\_state\_links\<close>

lemma links_loop_fold: "snd (links_loop links d) = fold record_link (inspected links) d"
  by (induction links d rule: links_loop.induct)
    (simp_all add: record_link_def qualifying_def Let_def split: sum.splits option.splits)

lemma get_state_links_fold:
  "fst (get_state_links st) = fold record_link (inspected (index_anchors st)) []"
proof -
  have p: "page (emit ev st) = page st" for ev
    by (simp add: emit_def)
  show ?thesis
  proof (cases "wait_container (page st)")
    case (Inl e)
    then show ?thesis by (simp add: get_state_links_def index_anchors_def p)
  next
    case c: (Inr c)
    show ?thesis
    proof (cases "find_links c")
      case (Inl e)
      with c show ?thesis by (simp add: get_state_links_def index_anchors_def p)
    next
      case (Inr links)
      obtain err d where l: "links_loop links [] = (err, d)"
        by (cases "links_loop links []")
      from links_loop_fold [of links "[]"] l have "d = fold record_link (inspected links) []"
        by simp
      with c Inr l show ?thesis
        by (cases err) (simp_all add: get_state_links_def index_anchors_def p)
    qed
  qed
qed

lemma map_of_record_link:
  "map_of (record_link a d) k = (if qualifies_as k a then fst a else map_of d k)"
  by (auto simp: record_link_def qualifies_as_def update_conv' split: option.splits)

lemma find_snoc:
  "List.find P (xs @ [a]) =
     (case List.find P xs of None \<Rightarrow> if P a then Some a else None | Some x \<Rightarrow> Some x)"
  by (induction xs) simp_all

lemma map_of_fold_record_link:
  "map_of (fold record_link seen d) k =
     (case List.find (qualifies_as k) (rev seen) of None \<Rightarrow> map_of d k | Some a \<Rightarrow> fst a)"
  by (induction seen arbitrary: d) (simp_all add: find_snoc map_of_record_link split: option.splits)

lemma distinct_record_link: "distinct (map fst d) \<Longrightarrow> distinct (map fst (record_link a d))"
  by (simp add: record_link_def distinct_update split: option.splits)

lemma distinct_fold_record_link:
  "distinct (map fst d) \<Longrightarrow> distinct (map fst (fold record_link seen d))"
  by (induction seen arbitrary: d) (simp_all add: distinct_record_link)

lemma find_Some_decomp:
  "List.find P xs = Some a \<longleftrightarrow> (\<exists>pre post. xs = pre @ a # post \<and> P a \<and> (\<forall>b \<in> set pre. \<not> P b))"
proof (induction xs)
  case Nil
  show ?case by simp
next
  case (Cons x xs)
  show ?case
  proof (cases "P x")
    case True
    have "(\<exists>pre post. x # xs = pre @ a # post \<and> P a \<and> (\<forall>b \<in> set pre. \<not> P b)) \<longleftrightarrow> x = a"
    proof
      assume "\<exists>pre post. x # xs = pre @ a # post \<and> P a \<and> (\<forall>b \<in> set pre. \<not> P b)"
      then obtain pre post where d: "x # xs = pre @ a # post" "\<forall>b \<in> set pre. \<not> P b" by blast
      with True have "pre = []" by (cases pre) auto
      with d show "x = a" by simp
    next
      assume "x = a"
      with True have "x # xs = [] @ a # xs \<and> P a \<and> (\<forall>b \<in> set []. \<not> P b)" by simp
      then show "\<exists>pre post. x # xs = pre @ a # post \<and> P a \<and> (\<forall>b \<in> set pre. \<not> P b)" by blast
    qed
    with True show ?thesis by simp
  next
    case False
    have "(\<exists>pre post. x # xs = pre @ a # post \<and> P a \<and> (\<forall>b \<in> set pre. \<not> P b)) \<longleftrightarrow>
          (\<exists>pre post. xs = pre @ a # post \<and> P a \<and> (\<forall>b \<in> set pre. \<not> P b))"
    proof
      assume "\<exists>pre post. x # xs = pre @ a # post \<and> P a \<and> (\<forall>b \<in> set pre. \<not> P b)"
      then obtain pre post where d: "x # xs = pre @ a # post" "P a" "\<forall>b \<in> set pre. \<not> P b" by blast
      with False obtain pre' where "pre = x # pre'" by (cases pre) auto
      with d show "\<exists>pre post. xs = pre @ a # post \<and> P a \<and> (\<forall>b \<in> set pre. \<not> P b)" by auto
    next
      assume "\<exists>pre post. xs = pre @ a # post \<and> P a \<and> (\<forall>b \<in> set pre. \<not> P b)"
      then obtain pre post where d: "xs = pre @ a # post" "P a" "\<forall>b \<in> set pre. \<not> P b" by blast
      with False have "x # xs = (x # pre) @ a # post \<and> P a \<and> (\<forall>b \<in> set (x # pre). \<not> P b)" by simp
      then show "\<exists>pre post. x # xs = pre @ a # post \<and> P a \<and> (\<forall>b \<in> set pre. \<not> P b)" by blast
    qed
    with False Cons show ?thesis by simp
  qed
qed

lemma find_rev_Some_decomp:
  "List.find P (rev xs) = Some a \<longleftrightarrow> (\<exists>pre post. xs = pre @ a # post \<and> P a \<and> (\<forall>b \<in> set post. \<not> P b))"
proof -
  have "(\<exists>pre post. rev xs = pre @ a # post \<and> P a \<and> (\<forall>b \<in> set pre. \<not> P b)) \<longleftrightarrow>
        (\<exists>pre post. xs = pre @ a # post \<and> P a \<and> (\<forall>b \<in> set post. \<not> P b))"
  proof
    assume "\<exists>pre post. rev xs = pre @ a # post \<and> P a \<and> (\<forall>b \<in> set pre. \<not> P b)"
    then obtain pre post where d: "rev xs = pre @ a # post" "P a" "\<forall>b \<in> set pre. \<not> P b" by blast
    from d(1) have "xs = rev post @ a # rev pre"
      by (metis append.assoc append_Cons append_Nil rev.simps(2) rev_append rev_rev_ident)
    with d show "\<exists>pre post. xs = pre @ a # post \<and> P a \<and> (\<forall>b \<in> set post. \<not> P b)"
      by (metis set_rev)
  next
    assume "\<exists>pre post. xs = pre @ a # post \<and> P a \<and> (\<forall>b \<in> set post. \<not> P b)"
    then obtain pre post where d: "xs = pre @ a # post" "P a" "\<forall>b \<in> set post. \<not> P b" by blast
    from d(1) have "rev xs = rev post @ a # rev pre" by simp
    with d show "\<exists>pre post. rev xs = pre @ a # post \<and> P a \<and> (\<forall>b \<in> set pre. \<not> P b)"
      by (metis set_rev)
  qed
  then show ?thesis by (simp add: find_Some_decomp)
qed

text \<open>
  C4. The mapping that \<open>get_state_links\<close> returns has one entry for each display name,
  and it holds the pair of a display name and a URL exactly if some anchor that link
  discovery saw has that URL as its href and that name as its trimmed text, qualifies
  (href and trimmed text non-empty, href containing \<^verbatim>\<open>/co/chambers/\<close>, href not the index
  page), and no anchor seen after it qualifies under the same name: of two qualifying
  anchors with one display name the last one seen gives the URL.
\<close>

theorem get_state_links_last_qualifying:
  "distinct (map fst (fst (get_state_links st))) \<and>
   (\<forall>k u. (k, u) \<in> set (fst (get_state_links st)) \<longleftrightarrow>
      (\<exists>pre t post. inspected (index_anchors st) = pre @ (Some u, t) # post \<and>
         qualifying u t \<and> strip t = k \<and> (\<forall>b \<in> set post. \<not> qualifies_as k b)))"
proof -
  define d where "d = fst (get_state_links st)"
  define seen where "seen = inspected (index_anchors st)"
  have d: "d = fold record_link seen []"
    by (simp add: d_def seen_def get_state_links_fold)
  have dist: "distinct (map fst d)"
    unfolding d by (rule distinct_fold_record_link) simp
  have "(k, u) \<in> set d \<longleftrightarrow>
      (\<exists>pre t post. seen = pre @ (Some u, t) # post \<and>
         qualifying u t \<and> strip t = k \<and> (\<forall>b \<in> set post. \<not> qualifies_as k b))" for k u
  proof -
    have "(k, u) \<in> set d \<longleftrightarrow> map_of d k = Some u"
      using dist by simp
    also have "\<dots> \<longleftrightarrow> (\<exists>a. List.find (qualifies_as k) (rev seen) = Some a \<and> fst a = Some u)"
      by (simp add: d map_of_fold_record_link split: option.splits)
    also have "\<dots> \<longleftrightarrow> (\<exists>a pre post. seen = pre @ a # post \<and> qualifies_as k a \<and>
        (\<forall>b \<in> set post. \<not> qualifies_as k b) \<and> fst a = Some u)"
      by (auto simp: find_rev_Some_decomp)
    also have "\<dots> \<longleftrightarrow> (\<exists>pre t post. seen = pre @ (Some u, t) # post \<and>
         qualifying u t \<and> strip t = k \<and> (\<forall>b \<in> set post. \<not> qualifies_as k b))"
      by (auto simp: qualifies_as_def)
    finally show ?thesis .
  qed
  with dist show ?thesis
    by (simp add: d_def seen_def)
qed


lemma crowded_links:
  "fst (get_state_links at_crowded_index) = [(py ''Texas'', texas_url)]"
  by (simp add: get_state_links_def at_crowded_index_def crowded_index_def init_state_def
      blank_page_def emit_def Let_def py_def texas_url_def ohio_url_def MAIN_PAGE_def BASE_URL_def
      strip_def isspace_def)

text \<open>
  The witness: on the crowded index page only the two Texas anchors qualify, and the
  mapping holds the href of the second.
\<close>

theorem get_state_links_last_qualifying_witness:
  "fst (get_state_links at_crowded_index) = [(py ''Texas'', texas_url)] \<and>
   (\<exists>pre t post. inspected (index_anchors at_crowded_index) = pre @ (Some texas_url, t) # post \<and>
      qualifying texas_url t \<and> strip t = py ''Texas'' \<and>
      (\<forall>b \<in> set post. \<not> qualifies_as (py ''Texas'') b))"
proof -
  have "(py ''Texas'', texas_url) \<in> set (fst (get_state_links at_crowded_index))"
    by (simp add: crowded_links)
  with get_state_links_last_qualifying [of at_crowded_index] crowded_links show ?thesis
    by blast
qed

section \<open>Facts about json.dump and json.load\<close>

lemma hex_value_digit: "d < 16 \<Longrightarrow> hex_value (hex_digit d) = Some d"
  by (auto simp: hex_value_def hex_digit_def)

lemma hex4_value:
  assumes "(n::nat) < 65536"
  shows "((n div 4096 mod 16 * 16 + n div 256 mod 16) * 16 + n div 16 mod 16) * 16 + n mod 16 = n"
proof -
  define a where "a = n div 16"
  define b where "b = a div 16"
  define c where "c = b div 16"
  have b: "n div 256 = b" and c: "n div 4096 = c"
    by (simp_all add: a_def b_def c_def div_mult2_eq)
  from assms have "c < 16"
    unfolding c [symmetric] by simp
  then have c16: "c mod 16 = c" by simp
  have "n = a * 16 + n mod 16" by (simp add: a_def)
  moreover have "a = b * 16 + a mod 16" by (simp add: b_def)
  moreover have "b = c * 16 + b mod 16" by (simp add: c_def)
  ultimately have "n = ((c * 16 + b mod 16) * 16 + a mod 16) * 16 + n mod 16"
    by simp
  then show ?thesis
    unfolding b c c16 a_def [symmetric] by simp
qed

lemma decode_u_escape:
  "n < 65536 \<Longrightarrow> decode_uXXXX (drop 2 (u_escape n) @ rest) = Some (n, rest)"
  using hex4_value [of n]
  by (simp add: decode_uXXXX_def u_escape_def hex_value_digit)


lemma escape_plain: "plain_char c \<Longrightarrow> escape_char c = [c]"
  by (simp add: plain_char_def escape_char_def)

lemma escape_short:
  "\<not> plain_char c \<Longrightarrow> c \<in> {92, 34, 8, 12, 10, 13, 9} \<Longrightarrow>
     \<exists>e. escape_char c = [92, e] \<and> e \<noteq> 117 \<and> backslash e = Some c"
  by (auto simp: escape_char_def backslash_def)

lemma escape_bmp:
  "\<not> plain_char c \<Longrightarrow> c \<notin> {92, 34, 8, 12, 10, 13, 9} \<Longrightarrow> c < 65536 \<Longrightarrow>
     escape_char c = u_escape c"
  by (auto simp: escape_char_def plain_char_def)

lemma escape_astral:
  "65536 \<le> c \<Longrightarrow>
     escape_char c = u_escape (55296 + (c - 65536) div 1024 mod 1024) @
                     u_escape (56320 + (c - 65536) mod 1024)"
  by (auto simp: escape_char_def)

lemma u_escape_split: "u_escape n = 92 # 117 # drop 2 (u_escape n)"
  by (simp add: u_escape_def)

lemma scan_u_escape:
  assumes "n < 65536"
    and "\<not> high_surrogate n \<or> take 2 T \<noteq> [92, 117] \<or>
         (\<exists>u2 r. decode_uXXXX (drop 2 T) = Some (u2, r) \<and> \<not> low_surrogate u2)"
  shows "scan_escape (tl (u_escape n) @ T) = Some (n, T)"
proof -
  have t: "tl (u_escape n) @ T = 117 # (drop 2 (u_escape n) @ T)"
    by (simp add: u_escape_def)
  from assms(2) show ?thesis
    unfolding t scan_escape_def
    by (auto simp: decode_u_escape [OF assms(1)] high_surrogate_def low_surrogate_def)
qed


lemma scan_astral:
  assumes "65536 \<le> c" and "c < 1114112"
  shows "scan_escape (tl (escape_char c) @ T) = Some (c, T)"
proof -
  define n where "n = c - 65536"
  define hi where "hi = 55296 + n div 1024 mod 1024"
  define lo where "lo = 56320 + n mod 1024"
  from assms have n: "n < 1048576" by (simp add: n_def)
  then have d: "n div 1024 mod 1024 = n div 1024" by simp
  have hi: "hi < 65536" "55296 \<le> hi" "hi \<le> 56319"
    by (simp_all add: hi_def) 
  have lo: "lo < 65536" "56320 \<le> lo" "lo \<le> 57343"
    by (simp_all add: lo_def)
  have e: "escape_char c = u_escape hi @ u_escape lo"
    using assms(1) by (simp add: escape_astral hi_def lo_def n_def)
  define X where "X = u_escape lo @ T"
  have t: "tl (escape_char c) @ T = 117 # (drop 2 (u_escape hi) @ X)"
    by (simp add: e u_escape_def X_def)
  have t2: "take 2 X = [92, 117]"
    by (simp add: u_escape_def X_def)
  have "drop 2 X = drop 2 (u_escape lo) @ T"
    by (simp add: u_escape_def X_def)
  then have d2: "decode_uXXXX (drop 2 X) = Some (lo, T)"
    by (simp add: decode_u_escape [OF lo(1)])
  have "n div 1024 * 1024 + n mod 1024 = n" by simp
  moreover have "hi - 55296 = n div 1024" by (simp add: hi_def d)
  moreover have "lo - 56320 = n mod 1024" by (simp add: lo_def)
  moreover from assms(1) have "c = 65536 + n" by (simp add: n_def)
  ultimately have v: "65536 + ((hi - 55296) * 1024 + (lo - 56320)) = c"
    by simp
  show ?thesis
    unfolding t scan_escape_def
    using hi lo v
    by (simp add: decode_u_escape [OF hi(1)] t2 d2)
qed

lemma lookahead:
  assumes "s = [] \<or> \<not> low_surrogate (hd s)"
  shows "take 2 (concat (map escape_char s) @ 34 # rest) \<noteq> [92, 117] \<or>
         (\<exists>u2 r. decode_uXXXX (drop 2 (concat (map escape_char s) @ 34 # rest)) = Some (u2, r) \<and>
            \<not> low_surrogate u2)"
proof (cases s)
  case Nil
  then show ?thesis by simp
next
  case (Cons d s')
  with assms have nl: "\<not> low_surrogate d" by simp
  define T where "T = concat (map escape_char s') @ 34 # rest"
  have c: "concat (map escape_char s) @ 34 # rest = escape_char d @ T"
    by (simp add: Cons T_def)
  consider (plain) "plain_char d"
    | (short) "\<not> plain_char d" "d \<in> {92, 34, 8, 12, 10, 13, 9}"
    | (bmp) "\<not> plain_char d" "d \<notin> {92, 34, 8, 12, 10, 13, 9}" "d < 65536"
    | (astral) "65536 \<le> d"
    by fastforce
  then show ?thesis
  proof cases
    case plain
    then have "take 2 (escape_char d @ T) \<noteq> [92, 117]"
      by (auto simp: escape_plain plain_char_def)
    then show ?thesis by (simp add: c)
  next
    case short
    from escape_short [OF short] obtain e where "escape_char d = [92, e]" "e \<noteq> 117"
      by blast
    then have "take 2 (escape_char d @ T) \<noteq> [92, 117]" by simp
    then show ?thesis by (simp add: c)
  next
    case bmp
    have "drop 2 (escape_char d @ T) = drop 2 (u_escape d) @ T"
      by (simp add: escape_bmp [OF bmp] u_escape_def)
    with decode_u_escape [OF bmp(3), of T] nl show ?thesis
      unfolding c by auto
  next
    case astral
    define hi where "hi = 55296 + (d - 65536) div 1024 mod 1024"
    have hi: "hi < 65536" "\<not> low_surrogate hi"
      by (simp_all add: hi_def low_surrogate_def)
    have "drop 2 (escape_char d @ T) =
        drop 2 (u_escape hi) @ (u_escape (56320 + (d - 65536) mod 1024) @ T)"
      by (simp add: escape_astral [OF astral] hi_def u_escape_def)
    with decode_u_escape [OF hi(1)] hi(2) show ?thesis
      unfolding c by auto
  qed
qed

lemma scanstring_step:
  assumes valid: "c < 1114112"
    and pair: "\<not> high_surrogate c \<or> s = [] \<or> \<not> low_surrogate (hd s)"
    and IH: "scanstring (concat (map escape_char s) @ 34 # rest) = Some (s, rest)"
  shows "scanstring (escape_char c @ concat (map escape_char s) @ 34 # rest) = Some (c # s, rest)"
proof -
  define T where "T = concat (map escape_char s) @ 34 # rest"
  note IH' = IH [folded T_def]
  consider (plain) "plain_char c"
    | (short) "\<not> plain_char c" "c \<in> {92, 34, 8, 12, 10, 13, 9}"
    | (bmp) "\<not> plain_char c" "c \<notin> {92, 34, 8, 12, 10, 13, 9}" "c < 65536"
    | (astral) "65536 \<le> c"
    by fastforce
  then have "scanstring (escape_char c @ T) = Some (c # s, rest)"
  proof cases
    case plain
    then show ?thesis
      by (simp add: escape_plain IH') (simp add: plain_char_def)
  next
    case short
    from escape_short [OF short] obtain e where e: "escape_char c = [92, e]" "e \<noteq> 117"
      "backslash e = Some c" by blast
    then have "scan_escape (e # T) = Some (c, T)"
      by (simp add: scan_escape_def)
    then show ?thesis
      by (simp add: e IH')
  next
    case bmp
    have look: "\<not> high_surrogate c \<or> take 2 T \<noteq> [92, 117] \<or>
         (\<exists>u2 r. decode_uXXXX (drop 2 T) = Some (u2, r) \<and> \<not> low_surrogate u2)"
    proof (cases "high_surrogate c")
      case False
      then show ?thesis by simp
    next
      case True
      with pair have "s = [] \<or> \<not> low_surrogate (hd s)" by simp
      from lookahead [OF this, of rest] show ?thesis
        unfolding T_def by blast
    qed
    have "escape_char c @ T = 92 # (tl (u_escape c) @ T)"
      by (simp add: escape_bmp [OF bmp] u_escape_def)
    then show ?thesis
      by (simp add: scan_u_escape [OF bmp(3) look] IH')
  next
    case astral
    have eq: "escape_char c @ T = 92 # (tl (escape_char c) @ T)"
      by (simp add: escape_astral [OF astral] u_escape_def)
    show ?thesis
      by (subst eq) (simp add: scan_astral [OF astral valid] IH')
  qed
  then show ?thesis by (simp add: T_def)
qed

lemma scanstring_escaped:
  "json_safe s \<Longrightarrow> scanstring (concat (map escape_char s) @ 34 # rest) = Some (s, rest)"
proof (induction s rule: json_safe.induct)
  case 1
  show ?case by simp
next
  case (2 c)
  have "scanstring (escape_char c @ concat (map escape_char []) @ 34 # rest) = Some ([c], rest)"
    by (rule scanstring_step) (use 2 in simp_all)
  then show ?case by simp
next
  case (3 c d s)
  then have IH: "scanstring (concat (map escape_char (d # s)) @ 34 # rest) = Some (d # s, rest)"
    by simp
  have "scanstring (escape_char c @ concat (map escape_char (d # s)) @ 34 # rest) =
      Some (c # d # s, rest)"
    by (rule scanstring_step [OF _ _ IH]) (use 3 in auto)
  then show ?case by simp
qed

lemma skip_ws_spaces:
  "c \<notin> {32, 9, 10, 13} \<Longrightarrow> skip_ws (replicate k 32 @ c # t) = c # t"
  by (induction k) (simp_all add: skip_ws_def)

lemma skip_ws_indent:
  "c \<notin> {32, 9, 10, 13} \<Longrightarrow> skip_ws (newline_indent lvl @ c # t) = c # t"
  using skip_ws_spaces [of c "4 * lvl" t]
  by (simp add: skip_ws_def newline_indent_def)

lemma skip_ws_Cons: "c \<notin> {32, 9, 10, 13} \<Longrightarrow> skip_ws (c # t) = c # t"
  by (simp add: skip_ws_def)

lemma skip_ws_space: "skip_ws (32 # t) = skip_ws t"
  by (simp add: skip_ws_def)

lemma iterencode_head:
  "\<exists>c t. iterencode lvl v = c # t \<and> c \<in> {110, 34, 91, 123}"
  by (cases v) (auto simp: encode_basestring_ascii_def)

lemma update_fresh: "k \<notin> fst ` set d \<Longrightarrow> AList.update k v d = d @ [(k, v)]"
  by (induction d) auto

lemma foldl_update_distinct:
  "distinct (map fst (d @ ps)) \<Longrightarrow>
     foldl (\<lambda>d kv. AList.update (fst kv) (snd kv) d) d ps = d @ ps"
proof (induction ps arbitrary: d)
  case Nil
  show ?case by simp
next
  case (Cons p ps)
  from Cons.prems have f: "fst p \<notin> fst ` set d" by auto
  have "AList.update (fst p) (snd p) d = d @ [p]"
    using update_fresh [OF f] by simp
  moreover from Cons.prems have "distinct (map fst ((d @ [p]) @ ps))" by simp
  ultimately show ?case
    using Cons.IH [of "d @ [p]"] by simp
qed

lemma dict_distinct: "distinct (map fst ps) \<Longrightarrow> dict ps = ps"
  using foldl_update_distinct [of "[]" ps] by (simp add: dict_def)

lemma scan_string_value:
  "json_safe s \<Longrightarrow> scan_once (Suc n) (encode_basestring_ascii s @ rest) = Some (JString s, rest)"
  by (simp add: encode_basestring_ascii_def scanstring_escaped)

lemma parse_array_items:
  assumes each: "\<And>x l r n. x \<in> set xs \<Longrightarrow> length (iterencode l x) \<le> n \<Longrightarrow>
      scan_once n (iterencode l x @ r) = Some (x, r)"
    and ne: "xs \<noteq> []"
    and fuel: "length (join (44 # newline_indent l) (map (iterencode l) xs)) < m"
  shows "parse_array m (join (44 # newline_indent l) (map (iterencode l) xs) @
           newline_indent l' @ 93 # rest) = Some (xs, rest)"
  using ne each fuel
proof (induction xs arbitrary: m rule: list_nonempty_induct)
  case (single x)
  from single.prems(2) obtain k where m: "m = Suc k" and k: "length (iterencode l x) \<le> k"
    by (cases m) auto
  have "scan_once k (iterencode l x @ newline_indent l' @ 93 # rest) =
      Some (x, newline_indent l' @ 93 # rest)"
    by (rule single.prems(1)) (simp_all add: k)
  then show ?case
    by (simp add: m skip_ws_indent)
next
  case (cons x xs)
  from cons.hyps obtain y ys where xs: "xs = y # ys" by (cases xs) auto
  define tail where "tail = join (44 # newline_indent l) (map (iterencode l) xs)"
  have j: "join (44 # newline_indent l) (map (iterencode l) (x # xs)) =
      iterencode l x @ 44 # newline_indent l @ tail"
    by (simp add: xs tail_def)
  from cons.prems(2) obtain k where m: "m = Suc k"
    and k: "length (iterencode l x) \<le> k" and k': "length tail < k"
    unfolding j by (cases m) auto
  have s1: "scan_once k (iterencode l x @ 44 # newline_indent l @ tail @ newline_indent l' @ 93 # rest) =
      Some (x, 44 # newline_indent l @ tail @ newline_indent l' @ 93 # rest)"
    by (rule cons.prems(1)) (simp_all add: k)
  from iterencode_head [of l y] obtain c t where h: "iterencode l y = c # t"
    "c \<in> {110, 34, 91, 123}" by blast
  then obtain t' where th: "tail = c # t'"
    by (cases ys) (auto simp: tail_def xs)
  have sk: "skip_ws (newline_indent l @ tail @ newline_indent l' @ 93 # rest) =
      tail @ newline_indent l' @ 93 # rest"
    unfolding th using h(2) skip_ws_indent [of c l] by auto
  have s2: "parse_array k (tail @ newline_indent l' @ 93 # rest) = Some (xs, rest)"
    unfolding tail_def
    by (rule cons.IH) (use cons.prems(1) k' in \<open>auto simp: tail_def\<close>)
  show ?case
    unfolding j m using s1 s2 sk
    by (simp add: skip_ws_Cons)
qed


lemma object_member_head: "\<exists>t. object_member l kv = 34 # t"
  by (simp add: object_member_def encode_basestring_ascii_def)

lemma parse_member:
  assumes v: "scan_once k (iterencode l (snd kv) @ r) = Some (snd kv, r)"
    and key: "json_safe (fst kv)"
  shows "\<exists>t. object_member l kv @ r = 34 # t \<and> scanstring t = Some (fst kv, 58 # 32 # iterencode l (snd kv) @ r)
          \<and> scan_once k (skip_ws (32 # iterencode l (snd kv) @ r)) = Some (snd kv, r)"
proof -
  from iterencode_head [of l "snd kv"] obtain c t where h: "iterencode l (snd kv) = c # t"
    "c \<in> {110, 34, 91, 123}" by blast
  then have "skip_ws (32 # iterencode l (snd kv) @ r) = iterencode l (snd kv) @ r"
    using skip_ws_Cons [of c "t @ r"] by (auto simp: skip_ws_space)
  with v scanstring_escaped [OF key, of "58 # 32 # iterencode l (snd kv) @ r"] show ?thesis
    by (simp add: object_member_def encode_basestring_ascii_def)
qed

lemma parse_object_items:
  assumes each: "\<And>kv l r n. kv \<in> set kvs \<Longrightarrow> length (iterencode l (snd kv)) \<le> n \<Longrightarrow>
      scan_once n (iterencode l (snd kv) @ r) = Some (snd kv, r)"
    and keys: "\<And>kv. kv \<in> set kvs \<Longrightarrow> json_safe (fst kv)"
    and ne: "kvs \<noteq> []"
    and fuel: "length (join (44 # newline_indent l) (map (object_member l) kvs)) < m"
  shows "parse_object m (join (44 # newline_indent l) (map (object_member l) kvs) @
           newline_indent l' @ 125 # rest) = Some (kvs, rest)"
  using ne each keys fuel
proof (induction kvs arbitrary: m rule: list_nonempty_induct)
  case (single kv)
  from single.prems(3) obtain k where m: "m = Suc k" and k: "length (iterencode l (snd kv)) \<le> k"
    by (cases m) (auto simp: object_member_def)
  have "scan_once k (iterencode l (snd kv) @ newline_indent l' @ 125 # rest) =
      Some (snd kv, newline_indent l' @ 125 # rest)"
    by (rule single.prems(1)) (simp_all add: k)
  from parse_member [OF this] single.prems(2) [of kv] obtain t where
    "object_member l kv @ newline_indent l' @ 125 # rest = 34 # t"
    "scanstring t = Some (fst kv, 58 # 32 # iterencode l (snd kv) @ newline_indent l' @ 125 # rest)"
    "scan_once k (skip_ws (32 # iterencode l (snd kv) @ newline_indent l' @ 125 # rest)) =
       Some (snd kv, newline_indent l' @ 125 # rest)"
    by auto
  then show ?case
    by (simp add: m skip_ws_Cons skip_ws_indent)
next
  case (cons kv kvs)
  from cons.hyps obtain y ys where kvs: "kvs = y # ys" by (cases kvs) auto
  define tail where "tail = join (44 # newline_indent l) (map (object_member l) kvs)"
  have j: "join (44 # newline_indent l) (map (object_member l) (kv # kvs)) =
      object_member l kv @ 44 # newline_indent l @ tail"
    by (simp add: kvs tail_def)
  from cons.prems(3) obtain k where m: "m = Suc k"
    and k: "length (iterencode l (snd kv)) \<le> k" and k': "length tail < k"
    unfolding j by (cases m) (auto simp: object_member_def)
  define R where "R = 44 # newline_indent l @ tail @ newline_indent l' @ 125 # rest"
  have "scan_once k (iterencode l (snd kv) @ R) = Some (snd kv, R)"
    by (rule cons.prems(1)) (simp_all add: k)
  from parse_member [OF this] cons.prems(2) [of kv] obtain t where
    p: "object_member l kv @ R = 34 # t"
    "scanstring t = Some (fst kv, 58 # 32 # iterencode l (snd kv) @ R)"
    "scan_once k (skip_ws (32 # iterencode l (snd kv) @ R)) = Some (snd kv, R)"
    by auto
  from object_member_head [of l y] obtain t0 where "object_member l y = 34 # t0" by blast
  then obtain t' where th: "tail = 34 # t'"
    by (cases ys) (auto simp: tail_def kvs)
  have sk: "skip_ws (newline_indent l @ tail @ newline_indent l' @ 125 # rest) =
      tail @ newline_indent l' @ 125 # rest"
    unfolding th using skip_ws_indent [of 34 l] by auto
  have s2: "parse_object k (tail @ newline_indent l' @ 125 # rest) = Some (kvs, rest)"
    unfolding tail_def
    by (rule cons.IH) (use cons.prems(1,2) k' in \<open>auto simp: tail_def\<close>)
  have "parse_object (Suc k) (object_member l kv @ R) = Some (kv # kvs, rest)"
    unfolding p(1) using p(2,3) s2 sk
    by (simp add: R_def skip_ws_Cons)
  then show ?case
    unfolding j m by (simp add: R_def)
qed


lemma iterencode_JObject:
  "kvs \<noteq> [] \<Longrightarrow> iterencode lvl (JObject kvs) =
     123 # newline_indent (Suc lvl) @ join (44 # newline_indent (Suc lvl)) (map (object_member (Suc lvl)) kvs) @
     newline_indent lvl @ [125]"
proof -
  have "object_member (Suc lvl) =
      (\<lambda>kv. encode_basestring_ascii (fst kv) @ [58, 32] @ iterencode (Suc lvl) (snd kv))"
    by (rule ext) (simp add: object_member_def)
  then show "kvs \<noteq> [] \<Longrightarrow> ?thesis"
    by simp
qed

lemma iterencode_JArray:
  "xs \<noteq> [] \<Longrightarrow> iterencode lvl (JArray xs) =
     91 # newline_indent (Suc lvl) @ join (44 # newline_indent (Suc lvl)) (map (iterencode (Suc lvl)) xs) @
     newline_indent lvl @ [93]"
  by simp

lemma join_head:
  assumes "xs \<noteq> []" and "\<And>x. x \<in> set xs \<Longrightarrow> \<exists>t. f x = c # t"
  shows "\<exists>t. join sep (map f xs) = c # t"
proof -
  from assms(1) obtain x ys where xs: "xs = x # ys" by (cases xs) auto
  with assms(2) [of x] obtain t where "f x = c # t" by auto
  then show ?thesis
    by (cases ys) (auto simp: xs)
qed

lemma join_head_iterencode:
  assumes "xs \<noteq> []"
  shows "\<exists>c t. join sep (map (iterencode l) xs) = c # t \<and> c \<in> {110, 34, 91, 123}"
proof -
  from assms obtain x ys where xs: "xs = x # ys" by (cases xs) auto
  from iterencode_head [of l x] obtain c t where "iterencode l x = c # t" "c \<in> {110, 34, 91, 123}"
    by blast
  then show ?thesis
    by (cases ys) (auto simp: xs)
qed

lemma scan_once_iterencode:
  "json_ok v \<Longrightarrow> length (iterencode lvl v) \<le> n \<Longrightarrow>
     scan_once n (iterencode lvl v @ rest) = Some (v, rest)"
proof (induction v arbitrary: lvl n rest)
  case JNull
  then obtain k where "n = Suc k" by (cases n) auto
  then show ?case by simp
next
  case (JString s)
  then obtain k where n: "n = Suc k" by (cases n) (auto simp: encode_basestring_ascii_def)
  show ?case
    unfolding n iterencode.simps
    by (rule scan_string_value) (use JString.prems in simp)
next
  case (JArray xs)
  show ?case
  proof (cases "xs = []")
    case True
    from JArray.prems obtain k where "n = Suc k" by (cases n) (auto simp: True)
    then show ?thesis by (simp add: True skip_ws_Cons)
  next
    case False
    define items where "items = join (44 # newline_indent (Suc lvl)) (map (iterencode (Suc lvl)) xs)"
    have e: "iterencode lvl (JArray xs) = 91 # newline_indent (Suc lvl) @ items @ newline_indent lvl @ [93]"
      by (simp only: iterencode_JArray [OF False] items_def)
    from JArray.prems(2) obtain k where n: "n = Suc k" and k: "length items < k"
      unfolding e by (cases n) (auto simp: newline_indent_def)
    from join_head_iterencode [OF False] obtain c t where h: "items = c # t" "c \<in> {110, 34, 91, 123}"
      unfolding items_def by blast
    have sk: "skip_ws (newline_indent (Suc lvl) @ items @ newline_indent lvl @ 93 # rest) =
        c # t @ newline_indent lvl @ 93 # rest"
      unfolding h(1) using h(2) skip_ws_indent [of c "Suc lvl"] by auto
    have "parse_array k (items @ newline_indent lvl @ 93 # rest) = Some (xs, rest)"
      unfolding items_def
    proof (rule parse_array_items)
      fix x l r m
      assume "x \<in> set xs" "length (iterencode l x) \<le> m"
      with JArray.IH [of x l m r] JArray.prems(1)
      show "scan_once m (iterencode l x @ r) = Some (x, r)" by simp
    next
      show "xs \<noteq> []" by (rule False)
    next
      show "length (join (44 # newline_indent (Suc lvl)) (map (iterencode (Suc lvl)) xs)) < k"
        using k by (simp only: items_def)
    qed
    then have "parse_array k (c # t @ newline_indent lvl @ 93 # rest) = Some (xs, rest)"
      by (simp add: h(1))
    with sk h(2) show ?thesis
      unfolding e n by auto
  qed
next
  case (JObject kvs)
  show ?case
  proof (cases "kvs = []")
    case True
    from JObject.prems obtain k where "n = Suc k" by (cases n) (auto simp: True)
    then show ?thesis by (simp add: True skip_ws_Cons)
  next
    case False
    define items where "items = join (44 # newline_indent (Suc lvl)) (map (object_member (Suc lvl)) kvs)"
    have e: "iterencode lvl (JObject kvs) = 123 # newline_indent (Suc lvl) @ items @ newline_indent lvl @ [125]"
      by (simp only: iterencode_JObject [OF False] items_def)
    from JObject.prems(2) obtain k where n: "n = Suc k" and k: "length items < k"
      unfolding e by (cases n) (auto simp: newline_indent_def)
    from join_head [OF False, of "object_member (Suc lvl)" 34] object_member_head
    obtain t where h: "items = 34 # t"
      unfolding items_def by blast
    have sk: "skip_ws (newline_indent (Suc lvl) @ items @ newline_indent lvl @ 125 # rest) =
        34 # t @ newline_indent lvl @ 125 # rest"
      unfolding h using skip_ws_indent [of 34 "Suc lvl"] by auto
    have "parse_object k (items @ newline_indent lvl @ 125 # rest) = Some (kvs, rest)"
      unfolding items_def
    proof (rule parse_object_items)
      fix kv l r m
      assume "kv \<in> set kvs" "length (iterencode l (snd kv)) \<le> m"
      with JObject.IH [of kv "snd kv" l m r] JObject.prems(1)
      show "scan_once m (iterencode l (snd kv) @ r) = Some (snd kv, r)"
        by (cases kv) auto
    next
      fix kv
      assume "kv \<in> set kvs"
      with JObject.prems(1) show "json_safe (fst kv)" by simp
    next
      show "kvs \<noteq> []" by (rule False)
    next
      show "length (join (44 # newline_indent (Suc lvl)) (map (object_member (Suc lvl)) kvs)) < k"
        using k by (simp only: items_def)
    qed
    then have "parse_object k (34 # t @ newline_indent lvl @ 125 # rest) = Some (kvs, rest)"
      by (simp add: h)
    moreover from JObject.prems(1) have "dict kvs = kvs"
      by (simp add: dict_distinct)
    ultimately show ?thesis
      unfolding e n using sk by auto
  qed
qed

lemma json_loads_dumps: "json_ok v \<Longrightarrow> json_loads (json_dumps v) = Some v"
proof -
  assume ok: "json_ok v"
  from iterencode_head [of 0 v] obtain c t where h: "iterencode 0 v = c # t"
    "c \<in> {110, 34, 91, 123}" by blast
  then have "skip_ws (iterencode 0 v) = iterencode 0 v"
    using skip_ws_Cons [of c t] by auto
  moreover have "scan_once (Suc (length (iterencode 0 v))) (iterencode 0 v @ []) = Some (v, [])"
    by (rule scan_once_iterencode [OF ok]) simp
  ultimately show ?thesis
    by (simp add: json_loads_def json_dumps_def skip_ws_def)
qed

section \<open>Facts about save\_state\_data\<close>

lemma save_state_data_written:
  assumes "sanitize_filename state_name = Inr safe"
    and "open_w env (length (events st)) (safe @ py ''.json'') = Inr ()"
  shows "save_state_data env state_name chambers st =
     (Inr (),
      st\<lparr>events := events st @ [OpenW (safe @ py ''.json''),
                                Print (Saved state_name (safe @ py ''.json''))],
         written := (written st)((cwd st, safe @ py ''.json'') \<mapsto>
                      json_dumps (JObject [(state_name, JArray (map chamber_json chambers))]))\<rparr>)"
  using assms by (simp add: save_state_data_def emit_def Let_def)

lemma chamber_json_ok: "listing_safe c \<Longrightarrow> json_ok (chamber_json c)"
  by (auto simp: listing_safe_def chamber_json_def py_def high_surrogate_def low_surrogate_def
      split: option.splits)

lemma output_data_ok:
  assumes "json_safe state_name" and "\<forall>c \<in> set chambers. listing_safe c"
  shows "json_ok (JObject [(state_name, JArray (map chamber_json chambers))])"
  using assms by (simp add: chamber_json_ok)

text \<open>
  C6 (as amended). Let the display name and every name, address and website of the
  listings be strings in which no high surrogate stands right before a low surrogate
  (as in every string of Unicode scalar values). When the file can be opened,
  \<open>save_state_data\<close> writes a file named after the sanitized display name followed by
  \<^verbatim>\<open>.json\<close>, and parsing the text of that file yields an object whose single key is the
  display name as given and whose value is an array with one object for each listing,
  in order, holding its name, its address and its website, \<open>null\<close> for a website that is
  \<open>None\<close>.
\<close>

theorem save_state_data_round_trip:
  assumes "sanitize_filename state_name = Inr safe"
    and "open_w env (length (events st)) (safe @ py ''.json'') = Inr ()"
    and "json_safe state_name"
    and "\<forall>c \<in> set chambers. listing_safe c"
  shows "\<exists>st' text.
           save_state_data env state_name chambers st = (Inr (), st') \<and>
           written st' (cwd st, safe @ py ''.json'') = Some text \<and>
           json_loads text =
             Some (JObject [(state_name,
               JArray (map (\<lambda>c. JObject [(py ''name'', JString (name c)),
                                         (py ''address'', JString (address c)),
                                         (py ''website'',
                                            (case website c of None \<Rightarrow> JNull | Some w \<Rightarrow> JString w))])
                         chambers))])"
proof -
  have "(\<lambda>c. JObject [(py ''name'', JString (name c)), (py ''address'', JString (address c)),
      (py ''website'', (case website c of None \<Rightarrow> JNull | Some w \<Rightarrow> JString w))]) = chamber_json"
    by (rule ext) (simp add: chamber_json_def)
  with json_loads_dumps [OF output_data_ok [OF assms(3,4)]] show ?thesis
    by (simp add: save_state_data_written [OF assms(1,2)])
qed

lemma surrogate_escape: "escape_char 55357 @ escape_char 56832 = escape_char 128512"
  by (simp add: escape_char_def u_escape_def hex_digit_def)

lemma surrogate_text:
  "json_dumps (JObject [(py ''Texas'', JArray [chamber_json surrogate_listing])]) =
   json_dumps (JObject [(py ''Texas'', JArray [JObject [(py ''name'', JString [128512]),
      (py ''address'', JString (py ''N/A'')), (py ''website'', JNull)]])])"
  using surrogate_escape
  by (simp add: json_dumps_def chamber_json_def surrogate_listing_def encode_basestring_ascii_def)

lemma smiley_ok:
  "json_ok (JObject [(py ''Texas'', JArray [JObject [(py ''name'', JString [128512]),
      (py ''address'', JString (py ''N/A'')), (py ''website'', JNull)]])])"
  by (simp add: py_def high_surrogate_def low_surrogate_def)

text \<open>
  C6 as stated fails. A listing whose name is the high surrogate U+D83D followed by the
  low surrogate U+DE00 is written as \<^verbatim>\<open>"\ud83d\ude00"\<close>, the text that the single code point
  U+1F600 is written as, and parsing joins the two escapes: the name read back has one
  character where the input has two.
\<close>

theorem surrogate_pair_read_back_joined:
  "sanitize_filename (py ''Texas'') = Inr (py ''Texas'') \<and>
   open_w demo_env (length (events init_state)) (py ''Texas'' @ py ''.json'') = Inr () \<and>
   written (snd (save_state_data demo_env (py ''Texas'') [surrogate_listing] init_state))
     (cwd init_state, py ''Texas'' @ py ''.json'') =
     Some (json_dumps (JObject [(py ''Texas'', JArray [chamber_json surrogate_listing])])) \<and>
   json_loads (json_dumps (JObject [(py ''Texas'', JArray [chamber_json surrogate_listing])])) =
     Some (JObject [(py ''Texas'', JArray [JObject [(py ''name'', JString [128512]),
        (py ''address'', JString (py ''N/A'')), (py ''website'', JNull)]])]) \<and>
   name surrogate_listing = [55357, 56832] \<and>
   [128512] \<noteq> name surrogate_listing"
proof -
  have s: "sanitize_filename (py ''Texas'') = Inr (py ''Texas'')"
    by (simp add: sanitize_filename_eq py_def strip_def isspace_def LF_def replace_invalid_def
        underscore_def)
  have o: "open_w demo_env (length (events init_state)) (py ''Texas'' @ py ''.json'') = Inr ()"
    by (simp add: demo_env_def)
  have l: "json_loads (json_dumps (JObject [(py ''Texas'', JArray [chamber_json surrogate_listing])])) =
     Some (JObject [(py ''Texas'', JArray [JObject [(py ''name'', JString [128512]),
        (py ''address'', JString (py ''N/A'')), (py ''website'', JNull)]])])"
    unfolding surrogate_text by (rule json_loads_dumps [OF smiley_ok])
  have n: "name surrogate_listing = [55357, 56832]"
    by (simp add: surrogate_listing_def)
  from s o l n show ?thesis
    by (simp add: save_state_data_written [OF s o])
qed

text \<open>
  The witness: the display name \<^verbatim>\<open>A/B\<close> with one listing without website is written to
  \<^verbatim>\<open>A_B.json\<close> and read back under the key \<^verbatim>\<open>A/B\<close>.
\<close>

theorem save_state_data_round_trip_witness:
  "sanitize_filename (py ''A/B'') = Inr (py ''A_B'') \<and>
   open_w demo_env (length (events init_state)) (py ''A_B'' @ py ''.json'') = Inr () \<and>
   json_safe (py ''A/B'') \<and>
   listing_safe \<lparr>name = py ''N/A'', address = py ''1 Main St'', website = None\<rparr> \<and>
   (\<exists>st' text.
      save_state_data demo_env (py ''A/B'')
        [\<lparr>name = py ''N/A'', address = py ''1 Main St'', website = None\<rparr>] init_state = (Inr (), st') \<and>
      written st' (cwd init_state, py ''A_B'' @ py ''.json'') = Some text \<and>
      json_loads text =
        Some (JObject [(py ''A/B'',
          JArray [JObject [(py ''name'', JString (py ''N/A'')),
                           (py ''address'', JString (py ''1 Main St'')),
                           (py ''website'', JNull)]])]))"
proof -
  have s: "sanitize_filename (py ''A/B'') = Inr (py ''A_B'')"
    by (simp add: sanitize_filename_eq py_def strip_def isspace_def LF_def replace_invalid_def
        underscore_def)
  have o: "open_w demo_env (length (events init_state)) (py ''A_B'' @ py ''.json'') = Inr ()"
    by (simp add: demo_env_def)
  have k: "json_safe (py ''A/B'')"
    by (simp add: py_def high_surrogate_def low_surrogate_def)
  have c: "listing_safe \<lparr>name = py ''N/A'', address = py ''1 Main St'', website = None\<rparr>"
    by (simp add: listing_safe_def py_def high_surrogate_def low_surrogate_def)
  then have cs: "\<forall>c \<in> set [\<lparr>name = py ''N/A'', address = py ''1 Main St'', website = None\<rparr>].
      listing_safe c"
    by simp
  from save_state_data_round_trip [OF s o k cs] s o k c show ?thesis
    by simp
qed

section \<open>Facts about main\<close>

lemma driver_get_no_quit:
  "Quit \<notin> set (events st) \<Longrightarrow> Quit \<notin> set (events (snd (driver_get env url st)))"
  by (simp add: driver_get_def emit_def Let_def)

lemma get_state_links_no_quit:
  "Quit \<notin> set (events st) \<Longrightarrow> Quit \<notin> set (events (snd (get_state_links st)))"
  by (simp add: get_state_links_def emit_def Let_def split: sum.splits prod.splits option.splits)

lemma enter_output_dir_no_quit:
  "Quit \<notin> set (events st) \<Longrightarrow> Quit \<notin> set (events (snd (enter_output_dir env st)))"
  by (simp add: enter_output_dir_def emit_def Let_def split: sum.splits prod.splits)

lemma scrape_state_no_quit:
  "Quit \<notin> set (events st) \<Longrightarrow> Quit \<notin> set (events (snd (scrape_state env n u st)))"
  by (simp add: scrape_state_def driver_get_def emit_def Let_def split: sum.splits prod.splits)

lemma save_state_data_no_quit:
  "Quit \<notin> set (events st) \<Longrightarrow> Quit \<notin> set (events (snd (save_state_data env n cs st)))"
  by (simp add: save_state_data_def emit_def Let_def split: sum.splits prod.splits)

lemma regions_loop_no_quit:
  "Quit \<notin> set (events st) \<Longrightarrow> Quit \<notin> set (events (snd (regions_loop env rs st)))"
proof (induction env rs st rule: regions_loop.induct)
  case (1 env st)
  then show ?case by simp
next
  case (2 env state_name state_url rest st)
  obtain r1 st1 where s1: "scrape_state env state_name state_url st = (r1, st1)"
    by (cases "scrape_state env state_name state_url st")
  with scrape_state_no_quit [OF "2.prems", of env state_name state_url]
  have q1: "Quit \<notin> set (events st1)" by simp
  show ?case
  proof (cases r1)
    case (Inl e)
    with s1 q1 show ?thesis by simp
  next
    case (Inr chambers)
    obtain r2 st2 where s2: "save_state_data env state_name chambers st1 = (r2, st2)"
      by (cases "save_state_data env state_name chambers st1")
    with save_state_data_no_quit [OF q1, of env state_name chambers]
    have q2: "Quit \<notin> set (events st2)" by simp
    show ?thesis
    proof (cases r2)
      case (Inl e)
      with s1 s2 Inr q2 show ?thesis by simp
    next
      case r2: (Inr x)
      from "2.IH" [OF s1 [symmetric] Inr s2 [symmetric] r2 q2] s1 s2 Inr r2
      show ?thesis by simp
    qed
  qed
qed

text \<open>
  C8 (as amended). On every path on which \<open>main\<close> returns, the early exit without
  regions as well as the end of the loop over the regions, \<open>driver.quit\<close> is invoked:
  it is the last event of the run and happens once.
\<close>

theorem main_returns_after_quit:
  "main env = (Inr (), st) \<Longrightarrow> \<exists>evs. events st = evs @ [Quit] \<and> Quit \<notin> set evs"
proof -
  assume m: "main env = (Inr (), st)"
  define st0 where "st0 = emit Chrome init_state"
  have q0: "Quit \<notin> set (events st0)"
    by (simp add: st0_def emit_def init_state_def)
  from m obtain u where c: "chrome env = Inr u"
    by (cases "chrome env") (simp_all add: main_def Let_def)
  obtain r1 st1 where g: "driver_get env MAIN_PAGE st0 = (r1, st1)"
    by (cases "driver_get env MAIN_PAGE st0")
  with driver_get_no_quit [OF q0, of env MAIN_PAGE] have q1: "Quit \<notin> set (events st1)"
    by simp
  from m c g obtain u1 where r1: "r1 = Inr u1"
    by (cases r1) (simp_all add: main_def Let_def st0_def)
  define st2 where "st2 = emit (Sleep 3) st1"
  from q1 have q2: "Quit \<notin> set (events st2)"
    by (simp add: st2_def emit_def)
  obtain state_links st3 where l: "get_state_links st2 = (state_links, st3)"
    by (cases "get_state_links st2")
  with get_state_links_no_quit [OF q2] have q3: "Quit \<notin> set (events st3)"
    by simp
  show ?thesis
  proof (cases "state_links = []")
    case True
    with m c g r1 l have "st = emit Quit (emit (Print NoStateLinks) st3)"
      by (simp add: main_def Let_def st0_def st2_def)
    with q3 show ?thesis
      by (simp add: emit_def)
  next
    case False
    obtain r4 st4 where d: "enter_output_dir env st3 = (r4, st4)"
      by (cases "enter_output_dir env st3")
    with enter_output_dir_no_quit [OF q3, of env] have q4: "Quit \<notin> set (events st4)"
      by simp
    from m c g r1 l False d obtain u4 where r4: "r4 = Inr u4"
      by (cases r4) (simp_all add: main_def Let_def st0_def st2_def)
    obtain r5 st5 where p: "regions_loop env state_links st4 = (r5, st5)"
      by (cases "regions_loop env state_links st4")
    with regions_loop_no_quit [OF q4, of env state_links] have q5: "Quit \<notin> set (events st5)"
      by simp
    from m c g r1 l False d r4 p obtain u5 where r5: "r5 = Inr u5"
      by (cases r5) (simp_all add: main_def Let_def st0_def st2_def)
    from m c g r1 l False d r4 p r5 have "st = emit Quit st5"
      by (simp add: main_def Let_def st0_def st2_def)
    with q5 show ?thesis
      by (simp add: emit_def)
  qed
qed

lemmas run_simps =
  py_def MAIN_PAGE_def BASE_URL_def texas_url_def ohio_url_def index_page_def austin_item_def
  bare_item_def texas_page_def ohio_page_def demo_browser_def demo_env_def readonly_env_def
  main_def driver_get_def emit_def init_state_def blank_page_def get_state_links_def
  enter_output_dir_def scrape_state_def save_state_data_def sanitize_filename_eq
  strip_def isspace_def LF_def replace_invalid_def before_first_line_break_def underscore_def
  output_dir_def item_name_def item_address_def item_website_def name_lookup_def
  address_lookup_def chamber_json_def Let_def

text \<open>
  C8 as stated fails: where no file can be opened for writing, the session starts,
  the exception of \<open>save_state_data\<close> leaves \<open>main\<close>, and \<open>driver.quit\<close> is never invoked.
\<close>

theorem quit_skipped_when_save_fails:
  "chrome readonly_env = Inr () \<and>
   fst (main readonly_env) = Inl OSError \<and>
   Quit \<notin> set (events (snd (main readonly_env)))"
  by (simp add: run_simps)

lemma demo_main_returns: "fst (main demo_env) = Inr ()"
  by (simp add: run_simps)

text \<open>The witness: the run with two regions returns, and its last event is the quit.\<close>

theorem main_returns_after_quit_witness:
  "fst (main demo_env) = Inr () \<and> last (events (snd (main demo_env))) = Quit"
proof -
  have "main demo_env = (Inr (), snd (main demo_env))"
    using demo_main_returns by (cases "main demo_env") simp
  from main_returns_after_quit [OF this] demo_main_returns show ?thesis
    by auto
qed

end
